theory Spec2Isabelle
  imports Main "HOL-Library.Word" "HOL-Library.Code_Target_Numeral" "HOL-Library.Sublist"
begin

unbundle bit_operations_syntax

section \<open>Bytes and the fixed-width and varint coding\<close>

type_synonym byte = "8 word"
type_synonym bytes = "byte list"
type_synonym u32 = "32 word"
type_synonym u64 = "64 word"

text \<open>
  Modelled from the spec: \<open>DecodeFixed32\<close>, \<open>DecodeFixed64\<close> and \<open>EncodeFixed64\<close> of
  util/coding.h are not among the sources. The spec fixes them as little-endian
  (``little-endian u32 for restart array and count'', ``fixed-little-endian-u64'').
  A buffer is the byte list it points into together with an offset.
\<close>

definition DecodeFixed32 :: "bytes \<Rightarrow> nat \<Rightarrow> u32" where
  "DecodeFixed32 buf p =
     ucast (buf ! p) OR push_bit 8 (ucast (buf ! (p + 1)))
       OR push_bit 16 (ucast (buf ! (p + 2))) OR push_bit 24 (ucast (buf ! (p + 3)))"

definition DecodeFixed64 :: "bytes \<Rightarrow> nat \<Rightarrow> u64" where
  "DecodeFixed64 buf p =
     ucast (buf ! p) OR push_bit 8 (ucast (buf ! (p + 1)))
       OR push_bit 16 (ucast (buf ! (p + 2))) OR push_bit 24 (ucast (buf ! (p + 3)))
       OR push_bit 32 (ucast (buf ! (p + 4))) OR push_bit 40 (ucast (buf ! (p + 5)))
       OR push_bit 48 (ucast (buf ! (p + 6))) OR push_bit 56 (ucast (buf ! (p + 7)))"

definition EncodeFixed64 :: "u64 \<Rightarrow> bytes" where
  "EncodeFixed64 v =
     [ucast v, ucast (drop_bit 8 v), ucast (drop_bit 16 v), ucast (drop_bit 24 v),
      ucast (drop_bit 32 v), ucast (drop_bit 40 v), ucast (drop_bit 48 v),
      ucast (drop_bit 56 v)]"

text \<open>
  Modelled from the spec: \<open>GetVarint32Ptr\<close> of util/coding is not among the sources. The
  spec names the header fields \<open>varint32\<close>: base-128, least significant group first, the
  high bit of a byte saying that another byte follows, at most five bytes, read strictly
  below \<open>limit\<close>. The result is the offset just past the varint and its value, or
  \<open>None\<close> for the source's NULL.
\<close>

function GetVarint32PtrFallback :: "bytes \<Rightarrow> nat \<Rightarrow> nat \<Rightarrow> nat \<Rightarrow> u32 \<Rightarrow> (nat \<times> u32) option" where
  "GetVarint32PtrFallback buf p limit shift result =
     (if shift \<le> 28 \<and> p < limit then
        (let b = (ucast (buf ! p) :: u32) in
         if b AND 128 \<noteq> 0
         then GetVarint32PtrFallback buf (p + 1) limit (shift + 7)
                (result OR push_bit shift (b AND 127))
         else Some (p + 1, result OR push_bit shift b))
      else None)"
  by pat_completeness auto
termination
  by (relation "measure (\<lambda>(buf, p, limit, shift, result). 35 - shift)") auto

definition GetVarint32Ptr :: "bytes \<Rightarrow> nat \<Rightarrow> nat \<Rightarrow> (nat \<times> u32) option" where
  "GetVarint32Ptr buf p limit =
     (if p < limit \<and> (ucast (buf ! p) :: u32) AND 128 = 0
      then Some (p + 1, ucast (buf ! p))
      else GetVarint32PtrFallback buf p limit 0 0)"

section \<open>Internal keys (db/dbformat.h)\<close>

datatype ValueType = kTypeDeletion | kTypeValue

definition ValueType_byte :: "ValueType \<Rightarrow> byte" where
  "ValueType_byte t = (case t of kTypeDeletion \<Rightarrow> 0x0 | kTypeValue \<Rightarrow> 0x1)"

definition kValueTypeForSeek :: ValueType where
  "kValueTypeForSeek = kTypeValue"

type_synonym SequenceNumber = u64

definition kMaxSequenceNumber :: SequenceNumber where
  "kMaxSequenceNumber = push_bit 56 1 - 1"

record ParsedInternalKey =
  user_key :: bytes
  sequence :: SequenceNumber
  vtype :: ValueType

definition InternalKeyEncodingLength :: "ParsedInternalKey \<Rightarrow> nat" where
  "InternalKeyEncodingLength key = length (user_key key) + 8"

text \<open>
  Modelled from the spec: \<open>AppendInternalKey\<close> and \<open>PackSequenceAndType\<close> live in
  db/dbformat.cc, which is not among the sources. The spec gives the encoding as
  \<open>UK || fixed-little-endian-u64(SN<<8 | VT)\<close>; the shift is a 64-bit one.
\<close>

definition PackSequenceAndType :: "SequenceNumber \<Rightarrow> ValueType \<Rightarrow> u64" where
  "PackSequenceAndType seq t = push_bit 8 seq OR ucast (ValueType_byte t)"

definition AppendInternalKey :: "bytes \<Rightarrow> ParsedInternalKey \<Rightarrow> bytes" where
  "AppendInternalKey result key =
     result @ user_key key @ EncodeFixed64 (PackSequenceAndType (sequence key) (vtype key))"

text \<open>
  \<open>ParseInternalKey\<close> returns a bool and fills \<open>*result\<close>; on \<open>false\<close> the source
  documents \<open>*result\<close> as undefined, so \<open>None\<close> stands for \<open>false\<close>. The cast of the low
  byte to \<open>ValueType\<close> is only taken where the byte is one of the two enumerators.
\<close>

definition ParseInternalKey :: "bytes \<Rightarrow> ParsedInternalKey option" where
  "ParseInternalKey internal_key =
     (let n = length internal_key in
      if n < 8 then None
      else
        (let num = DecodeFixed64 internal_key (n - 8);
             c = (ucast (num AND 0xff) :: byte)
         in if c \<le> ValueType_byte kTypeValue
            then Some \<lparr>user_key = take (n - 8) internal_key,
                       sequence = drop_bit 8 num,
                       vtype = (if c = 0x0 then kTypeDeletion else kTypeValue)\<rparr>
            else None))"

text \<open>
  \<open>ExtractUserKey\<close> asserts \<open>internal_key.size() >= 8\<close>; \<open>None\<close> stands for the failed
  assertion.
\<close>

definition ExtractUserKey :: "bytes \<Rightarrow> bytes option" where
  "ExtractUserKey internal_key =
     (if 8 \<le> length internal_key
      then Some (take (length internal_key - 8) internal_key)
      else None)"

section \<open>Blocks (table/block.cc)\<close>

datatype Status =
    OK
  | NotFound string
  | Corruption string
  | NotSupported string
  | InvalidArgument string
  | IOError string string

text \<open>
  A \<open>Slice\<close> is a pointer and a length. Pointers into the block are offsets from the
  block's first byte; \<open>None\<close> is the pointer of the default and the cleared slice, which
  points at a static empty string outside the block.
\<close>

datatype Slice = Slice (sdata: "nat option") (ssize: nat)

record Block =
  block_data_' :: bytes
  size_' :: nat
  restart_offset_' :: u32
  owned_' :: bool

text \<open>
  \<open>NumRestarts\<close> asserts \<open>size_ >= 4\<close>; both of its callers test that before the call.
\<close>

definition NumRestarts :: "Block \<Rightarrow> u32" where
  "NumRestarts b = DecodeFixed32 (block_data_' b) (size_' b - 4)"

text \<open>
  The constructor. \<open>1 + NumRestarts()\<close> is a 32-bit sum, the product and the difference
  are \<open>size_t\<close> ones, and the result is stored in the 32-bit \<open>restart_offset_\<close>, which the
  source leaves uninitialised on a corrupt block (here: 0; nothing reads it there).
\<close>

definition new_Block :: "bytes \<Rightarrow> bool \<Rightarrow> Block" where
  "new_Block contents heap_allocated =
     (let b = \<lparr>block_data_' = contents, size_' = length contents, restart_offset_' = 0,
               owned_' = heap_allocated\<rparr>
      in if size_' b < 4 then b\<lparr>size_' := 0\<rparr>
         else
           (let max_restarts_allowed = (size_' b - 4) div 4
            in if unat (NumRestarts b) > max_restarts_allowed then b\<lparr>size_' := 0\<rparr>
               else b\<lparr>restart_offset_' :=
                        of_nat (size_' b - unat (1 + NumRestarts b) * 4)\<rparr>))"

text \<open>
  \<open>DecodeEntry\<close>: the result is the offset of the key delta together with the three
  header fields, or \<open>None\<close> for NULL. \<open>limit - p\<close> is a signed pointer difference, the
  final comparison is between 32-bit values and the sum \<open>non_shared + value_length\<close> is
  a 32-bit sum.
\<close>

definition DecodeEntry :: "bytes \<Rightarrow> nat \<Rightarrow> nat \<Rightarrow> (nat \<times> u32 \<times> u32 \<times> u32) option" where
  "DecodeEntry buf p limit =
     (if int limit - int p < 3 then None
      else
        (let shared = (ucast (buf ! p) :: u32);
             non_shared = (ucast (buf ! (p + 1)) :: u32);
             value_length = (ucast (buf ! (p + 2)) :: u32)
         in case (if (shared OR non_shared OR value_length) < 128
                  then Some (p + 3, shared, non_shared, value_length)
                  else
                    (case GetVarint32Ptr buf p limit of
                       None \<Rightarrow> None
                     | Some (p1, sh) \<Rightarrow>
                        (case GetVarint32Ptr buf p1 limit of
                           None \<Rightarrow> None
                         | Some (p2, ns) \<Rightarrow>
                            (case GetVarint32Ptr buf p2 limit of
                               None \<Rightarrow> None
                             | Some (p3, vl) \<Rightarrow> Some (p3, sh, ns, vl)))))
            of None \<Rightarrow> None
             | Some (q, sh, ns, vl) \<Rightarrow>
                 if (of_nat (limit - q) :: u32) < ns + vl then None
                 else Some (q, sh, ns, vl)))"

record Iter =
  comparator_' :: "bytes \<Rightarrow> bytes \<Rightarrow> int"
  data_' :: bytes
  restarts_' :: u32
  num_restarts_' :: u32
  current_' :: u32
  restart_index_' :: u32
  key_' :: bytes
  value_' :: Slice
  status_' :: Status

text \<open>
  What stops the program: a failed \<open>assert\<close>, and a memory access the C++ standard
  leaves undefined (a read outside the block's bytes, arithmetic on a pointer that
  does not point into the block).
\<close>

datatype fault = AssertionFailure | OutOfBounds

text \<open>The constructor asserts \<open>num_restarts > 0\<close>; \<open>NewIterator\<close> tests it before.\<close>

definition new_Iter :: "(bytes \<Rightarrow> bytes \<Rightarrow> int) \<Rightarrow> bytes \<Rightarrow> u32 \<Rightarrow> u32 \<Rightarrow> Iter" where
  "new_Iter comparator buf restarts num_restarts =
     \<lparr>comparator_' = comparator, data_' = buf, restarts_' = restarts,
      num_restarts_' = num_restarts, current_' = restarts, restart_index_' = num_restarts,
      key_' = [], value_' = Slice None 0, status_' = OK\<rparr>"

definition Compare :: "Iter \<Rightarrow> bytes \<Rightarrow> bytes \<Rightarrow> int" where
  "Compare it a b = comparator_' it a b"

definition NextEntryOffset :: "Iter \<Rightarrow> fault + u32" where
  "NextEntryOffset it =
     (case sdata (value_' it) of
        None \<Rightarrow> Inl OutOfBounds
      | Some p \<Rightarrow> Inr (of_nat (p + ssize (value_' it))))"

definition GetRestartPoint :: "Iter \<Rightarrow> u32 \<Rightarrow> fault + u32" where
  "GetRestartPoint it index =
     (if index < num_restarts_' it
      then Inr (DecodeFixed32 (data_' it) (unat (restarts_' it) + unat index * 4))
      else Inl AssertionFailure)"

definition SeekToRestartPoint :: "Iter \<Rightarrow> u32 \<Rightarrow> fault + Iter" where
  "SeekToRestartPoint it index =
     (case GetRestartPoint (it\<lparr>key_' := [], restart_index_' := index\<rparr>) index of
        Inl e \<Rightarrow> Inl e
      | Inr offset \<Rightarrow>
          Inr (it\<lparr>key_' := [], restart_index_' := index,
                  value_' := Slice (Some (unat offset)) 0\<rparr>))"

definition Valid :: "Iter \<Rightarrow> bool" where
  "Valid it = (current_' it < restarts_' it)"

definition status :: "Iter \<Rightarrow> Status" where
  "status it = status_' it"

definition key :: "Iter \<Rightarrow> fault + bytes" where
  "key it = (if Valid it then Inr (key_' it) else Inl AssertionFailure)"

definition "value" :: "Iter \<Rightarrow> fault + Slice" where
  "value it = (if Valid it then Inr (value_' it) else Inl AssertionFailure)"

definition CorruptionError :: "Iter \<Rightarrow> Iter" where
  "CorruptionError it =
     it\<lparr>current_' := restarts_' it, restart_index_' := num_restarts_' it,
        status_' := Corruption ''bad entry in block'', key_' := [],
        value_' := Slice None 0\<rparr>"

text \<open>The loop at the end of \<open>ParseNextKey\<close> that moves \<open>restart_index_\<close> forward.\<close>

function advance_restart_index :: "Iter \<Rightarrow> fault + Iter" where
  "advance_restart_index it =
     (if restart_index_' it + 1 < num_restarts_' it
      then (case GetRestartPoint it (restart_index_' it + 1) of
              Inl e \<Rightarrow> Inl e
            | Inr r \<Rightarrow>
                if r < current_' it
                then advance_restart_index (it\<lparr>restart_index_' := restart_index_' it + 1\<rparr>)
                else Inr it)
      else Inr it)"
  by pat_completeness auto
termination
proof (relation "measure (\<lambda>it. unat (num_restarts_' it - (restart_index_' it + 1)))")
  show "wf (measure (\<lambda>it. unat (num_restarts_' it - (restart_index_' it + 1))))"
    by simp
next
  fix it :: Iter and r :: u32
  assume lt: "restart_index_' it + 1 < num_restarts_' it"
  let ?a = "restart_index_' it + 1" and ?n = "num_restarts_' it"
  have ne: "?n - ?a \<noteq> 0" using lt by simp
  have "unat (?n - ?a - 1) < unat (?n - ?a)" using ne by (rule measure_unat)
  then have "unat (?n - (?a + 1)) < unat (?n - ?a)" by (simp only: diff_diff_eq)
  then show "(it\<lparr>restart_index_' := restart_index_' it + 1\<rparr>, it)
      \<in> measure (\<lambda>it. unat (num_restarts_' it - (restart_index_' it + 1)))"
    by simp
qed

text \<open>
  \<open>ParseNextKey\<close> returns its bool together with the iterator it leaves behind.
  \<open>key_.append(p, non_shared)\<close> reads \<open>non_shared\<close> bytes at \<open>p\<close>; the read is defined
  only inside the block's bytes.
\<close>

definition ParseNextKey :: "Iter \<Rightarrow> fault + (bool \<times> Iter)" where
  "ParseNextKey it0 =
     (case NextEntryOffset it0 of
        Inl e \<Rightarrow> Inl e
      | Inr c \<Rightarrow>
         (let it = it0\<lparr>current_' := c\<rparr>;
              p = unat (current_' it);
              limit = unat (restarts_' it)
          in if p \<ge> limit
             then Inr (False, it\<lparr>current_' := restarts_' it,
                                  restart_index_' := num_restarts_' it\<rparr>)
             else
               (case DecodeEntry (data_' it) p limit of
                  None \<Rightarrow> Inr (False, CorruptionError it)
                | Some (q, shared, non_shared, value_length) \<Rightarrow>
                    if length (key_' it) < unat shared
                    then Inr (False, CorruptionError it)
                    else if length (data_' it) < q + unat non_shared
                    then Inl OutOfBounds
                    else
                      (case advance_restart_index
                              (it\<lparr>key_' := take (unat shared) (key_' it)
                                          @ take (unat non_shared) (drop q (data_' it)),
                                  value_' := Slice (Some (q + unat non_shared))
                                              (unat value_length)\<rparr>) of
                         Inl e \<Rightarrow> Inl e
                       | Inr it' \<Rightarrow> Inr (True, it')))))"

definition Next :: "Iter \<Rightarrow> fault + Iter" where
  "Next it =
     (if Valid it
      then (case ParseNextKey it of Inl e \<Rightarrow> Inl e | Inr (ok, it') \<Rightarrow> Inr it')
      else Inl AssertionFailure)"

definition SeekToFirst :: "Iter \<Rightarrow> fault + Iter" where
  "SeekToFirst it =
     (case SeekToRestartPoint it 0 of
        Inl e \<Rightarrow> Inl e
      | Inr it1 \<Rightarrow> (case ParseNextKey it1 of Inl e \<Rightarrow> Inl e | Inr (ok, it') \<Rightarrow> Inr it'))"

text \<open>
  A loop of the source that contains a \<open>return\<close> either returns from the enclosing
  function with the iterator as it is then, or falls through to the code after it.
\<close>

datatype 'a loop_exit = Return Iter | Fallthrough 'a

text \<open>The loop of \<open>SeekToLast\<close>; \<open>None\<close> stands for a loop that does not end.\<close>

partial_function (option) SeekToLast_loop :: "Iter \<Rightarrow> (fault + Iter) option" where
  "SeekToLast_loop it =
     (case ParseNextKey it of
        Inl e \<Rightarrow> Some (Inl e)
      | Inr (ok, it') \<Rightarrow>
          if \<not> ok then Some (Inr it')
          else (case NextEntryOffset it' of
                  Inl e \<Rightarrow> Some (Inl e)
                | Inr off \<Rightarrow>
                    if off < restarts_' it' then SeekToLast_loop it'
                    else Some (Inr it')))"

definition SeekToLast :: "Iter \<Rightarrow> (fault + Iter) option" where
  "SeekToLast it =
     (case SeekToRestartPoint it (num_restarts_' it - 1) of
        Inl e \<Rightarrow> Some (Inl e)
      | Inr it1 \<Rightarrow> SeekToLast_loop it1)"

text \<open>The first loop of \<open>Prev\<close>, which walks \<open>restart_index_\<close> backwards.\<close>

function Prev_restart_loop :: "Iter \<Rightarrow> u32 \<Rightarrow> fault + Iter loop_exit" where
  "Prev_restart_loop it original =
     (case GetRestartPoint it (restart_index_' it) of
        Inl e \<Rightarrow> Inl e
      | Inr r \<Rightarrow>
          if r \<ge> original
          then (if restart_index_' it = 0
                then Inr (Return (it\<lparr>current_' := restarts_' it,
                                       restart_index_' := num_restarts_' it\<rparr>))
                else Prev_restart_loop (it\<lparr>restart_index_' := restart_index_' it - 1\<rparr>)
                       original)
          else Inr (Fallthrough it))"
  by pat_completeness auto
termination
  by (relation "measure (\<lambda>(it, original). unat (restart_index_' it))")
     (simp_all add: measure_unat)

text \<open>The \<open>do ... while\<close> loop of \<open>Prev\<close>.\<close>

partial_function (option) Prev_scan_loop :: "Iter \<Rightarrow> u32 \<Rightarrow> (fault + Iter) option" where
  "Prev_scan_loop it original =
     (case ParseNextKey it of
        Inl e \<Rightarrow> Some (Inl e)
      | Inr (ok, it') \<Rightarrow>
          if \<not> ok then Some (Inr it')
          else (case NextEntryOffset it' of
                  Inl e \<Rightarrow> Some (Inl e)
                | Inr off \<Rightarrow>
                    if off < original then Prev_scan_loop it' original
                    else Some (Inr it')))"

definition Prev :: "Iter \<Rightarrow> (fault + Iter) option" where
  "Prev it =
     (if \<not> Valid it then Some (Inl AssertionFailure)
      else
        (let original = current_' it
         in case Prev_restart_loop it original of
              Inl e \<Rightarrow> Some (Inl e)
            | Inr (Return it') \<Rightarrow> Some (Inr it')
            | Inr (Fallthrough it1) \<Rightarrow>
                (case SeekToRestartPoint it1 (restart_index_' it1) of
                   Inl e \<Rightarrow> Some (Inl e)
                 | Inr it2 \<Rightarrow> Prev_scan_loop it2 original)))"




text \<open>
  \<open>NewErrorIterator\<close> and \<open>NewEmptyIterator\<close> (table/iterator.cc) are not among the
  sources; the three kinds of iterator that \<open>NewIterator\<close> can return are kept apart
  by a constructor each.
\<close>

datatype Iterator = ErrorIterator Status | EmptyIterator | BlockIter Iter

definition NewIterator :: "Block \<Rightarrow> (bytes \<Rightarrow> bytes \<Rightarrow> int) \<Rightarrow> Iterator" where
  "NewIterator b cmp =
     (if size_' b < 4 then ErrorIterator (Corruption ''bad block contents'')
      else
        (let num_restarts = NumRestarts b
         in if num_restarts = 0 then EmptyIterator
            else BlockIter (new_Iter cmp (block_data_' b) (restart_offset_' b) num_restarts)))"

declare SeekToLast_loop.simps [code]
declare Prev_scan_loop.simps [code]

text \<open>
  The block reader is generic in the comparator. The examples below use the order of
  \<open>memcmp\<close> followed by the shorter-is-smaller rule.
\<close>

fun bytewise_compare :: "bytes \<Rightarrow> bytes \<Rightarrow> int" where
  "bytewise_compare [] [] = 0"
| "bytewise_compare [] (y # ys) = - 1"
| "bytewise_compare (x # xs) [] = 1"
| "bytewise_compare (x # xs) (y # ys) =
     (if x < y then - 1 else if y < x then 1 else bytewise_compare xs ys)"

text \<open>
  Example blocks. \<open>three_entry_block\<close> holds \<open>apple \<mapsto> v1\<close>, \<open>apply \<mapsto> v2\<close> (sharing
  four bytes with its predecessor) and \<open>b \<mapsto> v3\<close>, with restart points at offsets 0 and
  16. \<open>overflow_block\<close> holds one entry whose header declares \<open>non_shared = 1\<close> and
  \<open>value_length = 0xFFFFFFFF\<close> (the five-byte varint \<open>FF FF FF FF 0F\<close>), followed by
  the single key byte and a restart array with one restart point.
\<close>

definition three_entry_block :: bytes where
  "three_entry_block =
     [0, 5, 2, 0x61, 0x70, 0x70, 0x6c, 0x65, 0x76, 0x31,
      4, 1, 2, 0x79, 0x76, 0x32,
      0, 1, 2, 0x62, 0x76, 0x33,
      0, 0, 0, 0,  16, 0, 0, 0,  2, 0, 0, 0]"

definition overflow_block :: bytes where
  "overflow_block =
     [0x00, 0x01, 0xFF, 0xFF, 0xFF, 0xFF, 0x0F, 0x61,
      0, 0, 0, 0,  1, 0, 0, 0]"


section \<open>The POSIX environment (util/env_posix.cc)\<close>

subsection \<open>The operating system\<close>

text \<open>
  The system calls that the code issues act on a kernel state: the regular files by
  path, the open descriptors of this process with the path each refers to, the files
  on which this process holds an \<open>fcntl\<close> record lock, and the files on which another
  process holds one. The calls follow POSIX. In particular record locks belong to the
  process and the file, not to the descriptor: \<open>F_SETLK\<close> on a file this process has
  already locked succeeds, and closing any descriptor of a file releases all the locks
  the process holds on that file (fcntl(2), close(2)). Transient failures (EIO, EMFILE,
  ENOMEM) are left out: a call fails only for the reasons written here. Which number a
  new descriptor gets does not matter to the code; it is taken from a counter.
\<close>

datatype errno = ENOENT | EACCES | EAGAIN | EBADF | EINVAL

definition strerror :: "errno \<Rightarrow> string" where
  "strerror e =
     (case e of
        ENOENT \<Rightarrow> ''No such file or directory''
      | EACCES \<Rightarrow> ''Permission denied''
      | EAGAIN \<Rightarrow> ''Resource temporarily unavailable''
      | EBADF \<Rightarrow> ''Bad file descriptor''
      | EINVAL \<Rightarrow> ''Invalid argument'')"

record kernel =
  files :: "string \<rightharpoonup> bytes"
  inaccessible :: "string set"
  fd_table :: "nat \<rightharpoonup> string"
  next_fd :: nat
  own_locks :: "string set"
  foreign_locks :: "string set"

text \<open>\<open>open(path, O_RDONLY)\<close> and \<open>open(path, O_RDWR | O_CREAT, 0644)\<close>.\<close>

definition sys_open :: "kernel \<Rightarrow> string \<Rightarrow> bool \<Rightarrow> kernel \<times> (errno + nat)" where
  "sys_open k path creat =
     (if path \<in> inaccessible k then (k, Inl EACCES)
      else if files k path = None \<and> \<not> creat then (k, Inl ENOENT)
      else
        (k\<lparr>files := (if files k path = None then (files k)(path \<mapsto> []) else files k),
           fd_table := (fd_table k)(next_fd k \<mapsto> path),
           next_fd := next_fd k + 1\<rparr>,
         Inr (next_fd k)))"

definition sys_close :: "kernel \<Rightarrow> nat \<Rightarrow> kernel" where
  "sys_close k fd =
     (case fd_table k fd of
        None \<Rightarrow> k
      | Some path \<Rightarrow>
          k\<lparr>fd_table := (fd_table k)(fd := None), own_locks := own_locks k - {path}\<rparr>)"

text \<open>\<open>pread(fd, scratch, n, offset)\<close> with a signed \<open>off_t\<close> offset.\<close>

definition sys_pread :: "kernel \<Rightarrow> nat \<Rightarrow> nat \<Rightarrow> int \<Rightarrow> errno + bytes" where
  "sys_pread k fd n offset =
     (case fd_table k fd of
        None \<Rightarrow> Inl EBADF
      | Some path \<Rightarrow>
          (case files k path of
             None \<Rightarrow> Inl EBADF
           | Some contents \<Rightarrow>
               if offset < 0 then Inl EINVAL
               else Inr (take n (drop (nat offset) contents))))"

definition sys_stat_size :: "kernel \<Rightarrow> string \<Rightarrow> errno + nat" where
  "sys_stat_size k path =
     (if path \<in> inaccessible k then Inl EACCES
      else (case files k path of None \<Rightarrow> Inl ENOENT | Some contents \<Rightarrow> Inr (length contents)))"

text \<open>\<open>mmap(NULL, size, PROT_READ, MAP_SHARED, fd, 0)\<close>; a length of 0 is EINVAL.\<close>

definition sys_mmap :: "kernel \<Rightarrow> nat \<Rightarrow> nat \<Rightarrow> errno + bytes" where
  "sys_mmap k fd len =
     (case fd_table k fd of
        None \<Rightarrow> Inl EBADF
      | Some path \<Rightarrow>
          (case files k path of
             None \<Rightarrow> Inl EBADF
           | Some contents \<Rightarrow> if len = 0 then Inl EINVAL else Inr (take len contents)))"

text \<open>\<open>fcntl(fd, F_SETLK, &f)\<close> with \<open>F_WRLCK\<close> or \<open>F_UNLCK\<close> over the whole file.\<close>

definition sys_fcntl_setlk :: "kernel \<Rightarrow> nat \<Rightarrow> bool \<Rightarrow> kernel \<times> int" where
  "sys_fcntl_setlk k fd lock =
     (case fd_table k fd of
        None \<Rightarrow> (k, - 1)
      | Some path \<Rightarrow>
          if lock
          then (if path \<in> foreign_locks k then (k, - 1)
                else (k\<lparr>own_locks := insert path (own_locks k)\<rparr>, 0))
          else (k\<lparr>own_locks := own_locks k - {path}\<rparr>, 0))"

definition fcntl_errno :: "kernel \<Rightarrow> nat \<Rightarrow> errno" where
  "fcntl_errno k fd = (case fd_table k fd of None \<Rightarrow> EBADF | Some path \<Rightarrow> EAGAIN)"

subsection \<open>Limiter, random-access files\<close>

definition posix_IOError :: "string \<Rightarrow> errno \<Rightarrow> Status" where
  "posix_IOError context err_number = IOError context (strerror err_number)"

text \<open>
  \<open>Limiter\<close>: the number of resources still allowed, an \<open>intptr_t\<close>. The calls are
  taken one at a time, so the test before the mutex and the one under it see the same
  value.
\<close>

type_synonym Limiter = int

definition Limiter_Acquire :: "Limiter \<Rightarrow> bool \<times> Limiter" where
  "Limiter_Acquire allowed =
     (if allowed \<le> 0 then (False, allowed)
      else (let x = allowed in if x \<le> 0 then (False, allowed) else (True, x - 1)))"

definition Limiter_Release :: "Limiter \<Rightarrow> Limiter" where
  "Limiter_Release allowed = allowed + 1"

datatype RandomAccessFile =
    PosixRandomAccessFile string bool "nat option"
  | PosixMmapReadableFile string bytes nat

text \<open>
  What a \<open>Read\<close> stores in \<open>*result\<close>: nothing, a slice whose bytes are the given ones,
  or a slice that lies outside the mapping.
\<close>

datatype read_result = Unset | Data bytes | Dangling

record PosixEnv =
  locks_' :: "string set"
  mmap_limit_' :: Limiter
  fd_limit_' :: Limiter

definition GetFileSize :: "kernel \<Rightarrow> string \<Rightarrow> Status \<times> nat" where
  "GetFileSize k fname =
     (case sys_stat_size k fname of
        Inl err \<Rightarrow> (posix_IOError fname err, 0)
      | Inr sz \<Rightarrow> (OK, sz))"

text \<open>The constructor of \<open>PosixRandomAccessFile\<close>, with the limiter it draws on.\<close>

definition new_PosixRandomAccessFile ::
    "kernel \<Rightarrow> string \<Rightarrow> nat \<Rightarrow> Limiter \<Rightarrow> RandomAccessFile \<times> Limiter \<times> kernel" where
  "new_PosixRandomAccessFile k fname fd limiter =
     (case Limiter_Acquire limiter of
        (acquired, limiter') \<Rightarrow>
          if \<not> acquired
          then (PosixRandomAccessFile fname True None, limiter', sys_close k fd)
          else (PosixRandomAccessFile fname False (Some fd), limiter', k))"

definition NewRandomAccessFile ::
    "PosixEnv \<Rightarrow> kernel \<Rightarrow> string
       \<Rightarrow> Status \<times> RandomAccessFile option \<times> PosixEnv \<times> kernel" where
  "NewRandomAccessFile env k fname =
     (case sys_open k fname False of
        (k1, Inl err) \<Rightarrow> (posix_IOError fname err, None, env, k1)
      | (k1, Inr fd) \<Rightarrow>
          (case Limiter_Acquire (mmap_limit_' env) of
             (True, lim) \<Rightarrow>
               (let env1 = env\<lparr>mmap_limit_' := lim\<rparr>;
                    (s, sz) = GetFileSize k1 fname;
                    (s, result) =
                      (if s = OK
                       then (case sys_mmap k1 fd sz of
                               Inr base \<Rightarrow> (s, Some (PosixMmapReadableFile fname base sz))
                             | Inl err \<Rightarrow> (posix_IOError fname err, None))
                       else (s, None));
                    k2 = sys_close k1 fd
                in if s \<noteq> OK
                   then (s, result, env1\<lparr>mmap_limit_' := Limiter_Release lim\<rparr>, k2)
                   else (s, result, env1, k2))
           | (False, lim) \<Rightarrow>
               (case new_PosixRandomAccessFile k1 fname fd (fd_limit_' env) of
                  (f, lim', k2) \<Rightarrow> (OK, Some f, env\<lparr>fd_limit_' := lim'\<rparr>, k2))))"

text \<open>
  \<open>Read(offset, n, result, scratch)\<close>. \<open>offset\<close> is a \<open>uint64_t\<close> and \<open>n\<close> a 64-bit
  \<open>size_t\<close>; \<open>static_cast<off_t>(offset)\<close> reads the offset as a signed number, and
  \<open>offset + n\<close> is a 64-bit sum.
\<close>

definition Read :: "RandomAccessFile \<Rightarrow> kernel \<Rightarrow> u64 \<Rightarrow> u64 \<Rightarrow> Status \<times> read_result \<times> kernel" where
  "Read file k offset n =
     (case file of
        PosixRandomAccessFile filename temporary_fd held_fd \<Rightarrow>
          (case (if temporary_fd then sys_open k filename False
                 else (k, case held_fd of Some fd \<Rightarrow> Inr fd | None \<Rightarrow> Inl EBADF)) of
             (k1, Inl err) \<Rightarrow>
               if temporary_fd then (posix_IOError filename err, Unset, k1)
               else (posix_IOError filename err, Data [], k1)
           | (k1, Inr fd) \<Rightarrow>
               (let r = sys_pread k1 fd (unat n) (sint offset);
                    result = (case r of Inl err \<Rightarrow> Data [] | Inr got \<Rightarrow> Data got);
                    s = (case r of Inl err \<Rightarrow> posix_IOError filename err | Inr got \<Rightarrow> OK);
                    k2 = (if temporary_fd then sys_close k1 fd else k1)
                in (s, result, k2)))
      | PosixMmapReadableFile filename mmapped_region length' \<Rightarrow>
          if unat (offset + n) > length'
          then (posix_IOError filename EINVAL, Data [], k)
          else (OK,
                if unat offset + unat n \<le> length mmapped_region
                then Data (take (unat n) (drop (unat offset) mmapped_region))
                else Dangling,
                k))"

subsection \<open>File locks\<close>

definition LockOrUnlock :: "kernel \<Rightarrow> nat \<Rightarrow> bool \<Rightarrow> kernel \<times> int" where
  "LockOrUnlock k fd lock = sys_fcntl_setlk k fd lock"

record PosixFileLock =
  fd_' :: nat
  name_' :: string

definition PosixLockTable_Insert :: "string set \<Rightarrow> string \<Rightarrow> bool \<times> string set" where
  "PosixLockTable_Insert locked_files fname = (fname \<notin> locked_files, insert fname locked_files)"

definition PosixLockTable_Remove :: "string set \<Rightarrow> string \<Rightarrow> string set" where
  "PosixLockTable_Remove locked_files fname = locked_files - {fname}"

definition LockFile ::
    "PosixEnv \<Rightarrow> kernel \<Rightarrow> string \<Rightarrow> Status \<times> PosixFileLock option \<times> PosixEnv \<times> kernel" where
  "LockFile env k fname =
     (case sys_open k fname True of
        (k1, Inl err) \<Rightarrow> (posix_IOError fname err, None, env, k1)
      | (k1, Inr fd) \<Rightarrow>
          (case PosixLockTable_Insert (locks_' env) fname of
             (False, tbl) \<Rightarrow>
               (IOError (''lock '' @ fname) ''already held by process'', None,
                env\<lparr>locks_' := tbl\<rparr>, sys_close k1 fd)
           | (True, tbl) \<Rightarrow>
               (case LockOrUnlock k1 fd True of
                  (k2, r) \<Rightarrow>
                    if r = - 1
                    then (posix_IOError (''lock '' @ fname) (fcntl_errno k1 fd), None,
                          env\<lparr>locks_' := PosixLockTable_Remove tbl fname\<rparr>,
                          sys_close k2 fd)
                    else (OK, Some \<lparr>fd_' = fd, name_' = fname\<rparr>,
                          env\<lparr>locks_' := tbl\<rparr>, k2))))"

definition UnlockFile :: "PosixEnv \<Rightarrow> kernel \<Rightarrow> PosixFileLock \<Rightarrow> Status \<times> PosixEnv \<times> kernel" where
  "UnlockFile env k my_lock =
     (case LockOrUnlock k (fd_' my_lock) False of
        (k1, r) \<Rightarrow>
          ((if r = - 1 then posix_IOError ''unlock'' (fcntl_errno k (fd_' my_lock)) else OK),
           env\<lparr>locks_' := PosixLockTable_Remove (locks_' env) (name_' my_lock)\<rparr>,
           sys_close k1 (fd_' my_lock)))"

text \<open>A kernel with one four-byte file and no open descriptors, and a fresh environment.\<close>

definition example_kernel :: kernel where
  "example_kernel =
     \<lparr>files = [''f'' \<mapsto> [1, 2, 3, 4]], inaccessible = {}, fd_table = Map.empty,
      next_fd = 3, own_locks = {}, foreign_locks = {}\<rparr>"

definition example_env :: "int \<Rightarrow> PosixEnv" where
  "example_env max_mmaps = \<lparr>locks_' = {}, mmap_limit_' = max_mmaps, fd_limit_' = 50\<rparr>"

text \<open>The states after a first successful \<open>LockFile\<close> of the path \<open>LOCK\<close>.\<close>

definition kernel_after_first_lock :: kernel where
  "kernel_after_first_lock =
     \<lparr>files = [''f'' \<mapsto> [1, 2, 3, 4], ''LOCK'' \<mapsto> []], inaccessible = {},
      fd_table = [3 \<mapsto> ''LOCK''], next_fd = 4, own_locks = {''LOCK''},
      foreign_locks = {}\<rparr>"

definition env_after_first_lock :: PosixEnv where
  "env_after_first_lock = \<lparr>locks_' = {''LOCK''}, mmap_limit_' = 1000, fd_limit_' = 50\<rparr>"

section \<open>The background queue (PosixEnv::Schedule, PosixEnv::BGThread)\<close>

text \<open>
  One thread submits a list of callables by calling \<open>Schedule\<close> for each in turn; the
  background thread runs \<open>BGThread\<close>. The two threads are interleaved statement by
  statement. A callable is a function pointer and an argument pointer.
\<close>

type_synonym callable = "nat \<times> nat"

record BGItem =
  arg :: "nat option"
  "function" :: "nat option"

datatype thread = Submitter | Worker

text \<open>Where the submitting thread is inside \<open>Schedule\<close>, by the statement it has last executed.\<close>

datatype schedule_pc =
    S_outside
  | S_locked
  | S_thread_checked
  | S_signal_checked
  | S_pushed
  | S_function_set
  | S_arg_set

text \<open>Where the background thread is inside \<open>BGThread\<close>.\<close>

datatype bgthread_pc =
    B_not_created
  | B_loop_top
  | B_testing_empty
  | B_in_cond_wait
  | B_at_front
  | B_has_function nat
  | B_has_arg nat nat
  | B_popped nat nat
  | B_unlocked nat nat
  | B_running nat nat

datatype event = Started callable | Finished callable

record bg_state =
  mu :: "thread option"
  started_bgthread :: bool
  queue :: "BGItem list"
  to_submit :: "callable list"
  spc :: schedule_pc
  bpc :: bgthread_pc
  trace :: "event list"

definition bg_init :: "callable list \<Rightarrow> bg_state" where
  "bg_init cs =
     \<lparr>mu = None, started_bgthread = False, queue = [], to_submit = cs,
      spc = S_outside, bpc = B_not_created, trace = []\<rparr>"

text \<open>
  One statement of the submitting thread; \<open>None\<close> when it cannot move (nothing left to
  submit, or the mutex is taken). The callable being submitted is the head of
  \<open>to_submit\<close> until \<open>Schedule\<close> returns.
\<close>

definition Schedule_step :: "bg_state \<Rightarrow> bg_state option" where
  "Schedule_step s =
     (case to_submit s of
        [] \<Rightarrow> None
      | (f, a) # rest \<Rightarrow>
         (case spc s of
            S_outside \<Rightarrow>
              if mu s = None then Some (s\<lparr>mu := Some Submitter, spc := S_locked\<rparr>) else None
          | S_locked \<Rightarrow>
              if \<not> started_bgthread s
              then Some (s\<lparr>started_bgthread := True, bpc := B_loop_top,
                           spc := S_thread_checked\<rparr>)
              else Some (s\<lparr>spc := S_thread_checked\<rparr>)
          | S_thread_checked \<Rightarrow> Some (s\<lparr>spc := S_signal_checked\<rparr>)
          | S_signal_checked \<Rightarrow>
              Some (s\<lparr>queue := queue s @ [\<lparr>arg = None, function = None\<rparr>],
                      spc := S_pushed\<rparr>)
          | S_pushed \<Rightarrow>
              if queue s = [] then None
              else Some (s\<lparr>queue := butlast (queue s) @ [(last (queue s))\<lparr>function := Some f\<rparr>],
                           spc := S_function_set\<rparr>)
          | S_function_set \<Rightarrow>
              if queue s = [] then None
              else Some (s\<lparr>queue := butlast (queue s) @ [(last (queue s))\<lparr>arg := Some a\<rparr>],
                           spc := S_arg_set\<rparr>)
          | S_arg_set \<Rightarrow> Some (s\<lparr>mu := None, to_submit := rest, spc := S_outside\<rparr>)))"

text \<open>
  One statement of the background thread. \<open>pthread_cond_wait\<close> releases the mutex and
  blocks; the thread leaves it by taking the mutex again, after a signal or spuriously.
  Reading a field that was never written, and \<open>front()\<close> of an empty queue, have no
  successor.
\<close>

definition BGThread_step :: "bg_state \<Rightarrow> bg_state option" where
  "BGThread_step s =
     (case bpc s of
        B_not_created \<Rightarrow> None
      | B_loop_top \<Rightarrow>
          if mu s = None then Some (s\<lparr>mu := Some Worker, bpc := B_testing_empty\<rparr>) else None
      | B_testing_empty \<Rightarrow>
          if queue s = [] then Some (s\<lparr>mu := None, bpc := B_in_cond_wait\<rparr>)
          else Some (s\<lparr>bpc := B_at_front\<rparr>)
      | B_in_cond_wait \<Rightarrow>
          if mu s = None then Some (s\<lparr>mu := Some Worker, bpc := B_testing_empty\<rparr>) else None
      | B_at_front \<Rightarrow>
          (case queue s of
             [] \<Rightarrow> None
           | item # q \<Rightarrow>
               (case function item of
                  None \<Rightarrow> None
                | Some f \<Rightarrow> Some (s\<lparr>bpc := B_has_function f\<rparr>)))
      | B_has_function f \<Rightarrow>
          (case queue s of
             [] \<Rightarrow> None
           | item # q \<Rightarrow>
               (case arg item of
                  None \<Rightarrow> None
                | Some a \<Rightarrow> Some (s\<lparr>bpc := B_has_arg f a\<rparr>)))
      | B_has_arg f a \<Rightarrow>
          (case queue s of
             [] \<Rightarrow> None
           | item # q \<Rightarrow> Some (s\<lparr>queue := q, bpc := B_popped f a\<rparr>))
      | B_popped f a \<Rightarrow> Some (s\<lparr>mu := None, bpc := B_unlocked f a\<rparr>)
      | B_unlocked f a \<Rightarrow>
          Some (s\<lparr>trace := trace s @ [Started (f, a)], bpc := B_running f a\<rparr>)
      | B_running f a \<Rightarrow>
          Some (s\<lparr>trace := trace s @ [Finished (f, a)], bpc := B_loop_top\<rparr>))"

inductive bg_step :: "bg_state \<Rightarrow> bg_state \<Rightarrow> bool" where
  submitter: "Schedule_step s = Some s' \<Longrightarrow> bg_step s s'"
| worker: "BGThread_step s = Some s' \<Longrightarrow> bg_step s s'"

definition bg_reachable :: "callable list \<Rightarrow> bg_state \<Rightarrow> bool" where
  "bg_reachable cs s = bg_step\<^sup>*\<^sup>* (bg_init cs) s"

text \<open>The trace in which the callables run one after the other, each to its end.\<close>

definition serial_trace :: "callable list \<Rightarrow> event list" where
  "serial_trace cs = concat (map (\<lambda>c. [Started c, Finished c]) cs)"

text \<open>Running a schedule: the threads in the order in which they take their steps.\<close>

fun bg_run :: "thread list \<Rightarrow> bg_state \<Rightarrow> bg_state option" where
  "bg_run [] s = Some s"
| "bg_run (Submitter # ts) s =
     (case Schedule_step s of None \<Rightarrow> None | Some s' \<Rightarrow> bg_run ts s')"
| "bg_run (Worker # ts) s =
     (case BGThread_step s of None \<Rightarrow> None | Some s' \<Rightarrow> bg_run ts s')"

text \<open>
  What the proof of the order keeps track of: the callables that have returned, the
  callable the background thread has taken off the queue, and the shape of the queue
  while the submitting thread is inside \<open>Schedule\<close>.
\<close>

fun finished_calls :: "event list \<Rightarrow> callable list" where
  "finished_calls [] = []"
| "finished_calls (Started c # es) = finished_calls es"
| "finished_calls (Finished c # es) = c # finished_calls es"

definition item_of :: "callable \<Rightarrow> BGItem" where
  "item_of c = \<lparr>arg = Some (snd c), function = Some (fst c)\<rparr>"

definition in_flight :: "bgthread_pc \<Rightarrow> callable list" where
  "in_flight pc =
     (case pc of
        B_popped f a \<Rightarrow> [(f, a)]
      | B_unlocked f a \<Rightarrow> [(f, a)]
      | B_running f a \<Rightarrow> [(f, a)]
      | _ \<Rightarrow> [])"

definition running_event :: "bgthread_pc \<Rightarrow> event list" where
  "running_event pc = (case pc of B_running f a \<Rightarrow> [Started (f, a)] | _ \<Rightarrow> [])"

definition submitter_holds :: "schedule_pc \<Rightarrow> bool" where
  "submitter_holds pc = (pc \<noteq> S_outside)"

definition worker_holds :: "bgthread_pc \<Rightarrow> bool" where
  "worker_holds pc =
     (case pc of
        B_testing_empty \<Rightarrow> True
      | B_at_front \<Rightarrow> True
      | B_has_function f \<Rightarrow> True
      | B_has_arg f a \<Rightarrow> True
      | B_popped f a \<Rightarrow> True
      | _ \<Rightarrow> False)"

text \<open>The queue as the submitter's position in \<open>Schedule\<close> determines it.\<close>

definition queue_shape :: "schedule_pc \<Rightarrow> callable list \<Rightarrow> callable list \<Rightarrow> BGItem list" where
  "queue_shape pc qc todo =
     (case pc of
        S_pushed \<Rightarrow> map item_of qc @ [\<lparr>arg = None, function = None\<rparr>]
      | S_function_set \<Rightarrow> map item_of qc @ [\<lparr>arg = None, function = Some (fst (hd todo))\<rparr>]
      | S_arg_set \<Rightarrow> map item_of qc @ [item_of (hd todo)]
      | _ \<Rightarrow> map item_of qc)"

definition bg_inv :: "callable list \<Rightarrow> bg_state \<Rightarrow> bool" where
  "bg_inv cs s =
     ((mu s = Some Submitter \<longleftrightarrow> submitter_holds (spc s))
      \<and> (mu s = Some Worker \<longleftrightarrow> worker_holds (bpc s))
      \<and> (bpc s = B_not_created \<longleftrightarrow> \<not> started_bgthread s)
      \<and> (spc s \<noteq> S_outside \<longrightarrow> to_submit s \<noteq> [])
      \<and> trace s = serial_trace (finished_calls (trace s)) @ running_event (bpc s)
      \<and> (\<exists>qc. queue s = queue_shape (spc s) qc (to_submit s)
             \<and> cs = finished_calls (trace s) @ in_flight (bpc s) @ qc @ to_submit s
             \<and> (case bpc s of
                   B_at_front \<Rightarrow> qc \<noteq> []
                 | B_has_function f \<Rightarrow> qc \<noteq> [] \<and> fst (hd qc) = f
                 | B_has_arg f a \<Rightarrow> qc \<noteq> [] \<and> hd qc = (f, a)
                 | _ \<Rightarrow> True)))"

text \<open>Two callables and a schedule in which the second is submitted while the first runs.\<close>

definition two_callables :: "callable list" where
  "two_callables = [(1, 10), (2, 20)]"

definition interleaved_schedule :: "thread list" where
  "interleaved_schedule =
     replicate 7 Submitter @ replicate 7 Worker @ replicate 7 Submitter @ replicate 9 Worker"

section \<open>Well-formed blocks\<close>

text \<open>
  An entry of a block as the format lays it out: the offset of its header, its full
  key, the offset and length of its value, and the number of key bytes it shares with
  its predecessor.
\<close>

datatype entry = Entry (eoffset: nat) (ekey: bytes) (evalue_offset: nat) (evalue_length: nat)
  (eshared: nat)

definition next_offset :: "entry \<Rightarrow> nat" where
  "next_offset e = evalue_offset e + evalue_length e"

text \<open>
  The entries that lie between offset \<open>p\<close> and \<open>limit\<close>, when the bytes there are a
  sequence of entries that ends exactly at \<open>limit\<close>: each header decodes, no entry
  shares more than its predecessor's key has, and key delta and value lie before
  \<open>limit\<close> (the lengths added as numbers, not as 32-bit values). \<open>prev\<close> is the key of
  the entry before \<open>p\<close>.
\<close>

function block_entries :: "bytes \<Rightarrow> nat \<Rightarrow> nat \<Rightarrow> bytes \<Rightarrow> entry list option" where
  "block_entries buf limit p prev =
     (if limit \<le> p then (if p = limit then Some [] else None)
      else
        (case DecodeEntry buf p limit of
           None \<Rightarrow> None
         | Some (q, sh, ns, vl) \<Rightarrow>
             if length prev < unat sh \<or> limit < q + unat ns + unat vl
                \<or> q + unat ns + unat vl \<le> p
             then None
             else
               (case block_entries buf limit (q + unat ns + unat vl)
                       (take (unat sh) prev @ take (unat ns) (drop q buf)) of
                  None \<Rightarrow> None
                | Some es \<Rightarrow>
                    Some (Entry p (take (unat sh) prev @ take (unat ns) (drop q buf))
                            (q + unat ns) (unat vl) (unat sh) # es))))"
  by pat_completeness auto
termination
  by (relation "measure (\<lambda>(buf, limit, p, prev). limit - p)") auto

declare block_entries.simps [simp del]

definition restart_points :: "bytes \<Rightarrow> nat \<Rightarrow> nat \<Rightarrow> nat list" where
  "restart_points buf limit n = map (\<lambda>j. unat (DecodeFixed32 buf (limit + j * 4))) [0..<n]"

text \<open>
  A well-formed block with the entries \<open>es\<close>: smaller than \<open>2^32\<close> bytes, with a
  restart count \<open>n > 0\<close> in its last four bytes, \<open>n\<close> restart points before that, and
  before those the entries. The restart points increase strictly, the first is 0, and
  every other one is the offset of an entry that shares nothing with its predecessor.
\<close>

definition well_formed_block :: "bytes \<Rightarrow> entry list \<Rightarrow> bool" where
  "well_formed_block buf es =
     (4 \<le> length buf \<and> length buf < 2 ^ 32 \<and>
      (let n = unat (DecodeFixed32 buf (length buf - 4));
           limit = length buf - (1 + n) * 4;
           rps = restart_points buf limit n
       in 0 < n \<and> (1 + n) * 4 \<le> length buf
          \<and> block_entries buf limit 0 [] = Some es
          \<and> hd rps = 0
          \<and> sorted_wrt (<) rps
          \<and> list_all (\<lambda>r. list_ex (\<lambda>e. eoffset e = r \<and> eshared e = 0) es) (tl rps)))"

text \<open>The iterator that \<open>NewIterator\<close> returns on a block of that shape.\<close>

definition block_iter :: "(bytes \<Rightarrow> bytes \<Rightarrow> int) \<Rightarrow> bytes \<Rightarrow> Iter" where
  "block_iter cmp buf =
     (let n = DecodeFixed32 buf (length buf - 4)
      in new_Iter cmp buf (of_nat (length buf - (1 + unat n) * 4)) n)"

text \<open>The iterator stands on the entry \<open>e\<close>.\<close>

definition at_entry :: "Iter \<Rightarrow> entry \<Rightarrow> bool" where
  "at_entry it e =
     (Valid it \<and> status it = OK
      \<and> unat (current_' it) = eoffset e
      \<and> key it = Inr (ekey e)
      \<and> value it = Inr (Slice (Some (evalue_offset e)) (evalue_length e)))"

text \<open>\<open>Next\<close> and \<open>Prev\<close>, \<open>i\<close> times.\<close>

fun Next_times :: "nat \<Rightarrow> Iter \<Rightarrow> fault + Iter" where
  "Next_times 0 it = Inr it"
| "Next_times (Suc i) it =
     (case Next it of Inl e \<Rightarrow> Inl e | Inr it' \<Rightarrow> Next_times i it')"

fun Prev_times :: "nat \<Rightarrow> Iter \<Rightarrow> (fault + Iter) option" where
  "Prev_times 0 it = Some (Inr it)"
| "Prev_times (Suc i) it =
     (case Prev it of
        None \<Rightarrow> None
      | Some (Inl e) \<Rightarrow> Some (Inl e)
      | Some (Inr it') \<Rightarrow> Prev_times i it')"

text \<open>
  An iterator over the block \<open>buf\<close> with the comparator \<open>cmp\<close> that has not met a
  corrupt entry: the constant members are those that \<open>NewIterator\<close> sets, the other
  members are arbitrary.
\<close>

definition iterator_over :: "(bytes \<Rightarrow> bytes \<Rightarrow> int) \<Rightarrow> bytes \<Rightarrow> Iter \<Rightarrow> bool" where
  "iterator_over cmp buf it =
     (comparator_' it = cmp \<and> data_' it = buf
      \<and> restarts_' it = restarts_' (block_iter cmp buf)
      \<and> num_restarts_' it = num_restarts_' (block_iter cmp buf)
      \<and> status_' it = OK)"

text \<open>
  \<open>it'\<close> is \<open>it\<close> moved onto the entry \<open>e\<close>, and \<open>it\<close> moved past the last entry.
\<close>

definition landed :: "Iter \<Rightarrow> entry \<Rightarrow> Iter \<Rightarrow> bool" where
  "landed it e it' =
     (\<exists>ri. it' = it\<lparr>current_' := of_nat (eoffset e), key_' := ekey e,
                      value_' := Slice (Some (evalue_offset e)) (evalue_length e),
                      restart_index_' := ri\<rparr>
           \<and> ri < num_restarts_' it)"

definition ran_off :: "Iter \<Rightarrow> Iter \<Rightarrow> bool" where
  "ran_off it it' =
     (\<exists>k v. it' = it\<lparr>current_' := restarts_' it, key_' := k, value_' := v,
                       restart_index_' := num_restarts_' it\<rparr>)"

text \<open>The position from which \<open>ParseNextKey\<close> reads next: offset \<open>p\<close> after key \<open>prev\<close>.\<close>

definition before :: "Iter \<Rightarrow> nat \<Rightarrow> bytes \<Rightarrow> bool" where
  "before it p prev =
     (\<exists>a b. value_' it = Slice (Some a) b \<and> a + b = p \<and> key_' it = prev
        \<and> restart_index_' it < num_restarts_' it
        \<and> unat (restarts_' it) \<le> length (data_' it))"


text \<open>
  The restart count, the offset of the restart array and the restart points of a
  block, and the key that is stored in full at a restart point.
\<close>

definition bcount :: "bytes \<Rightarrow> nat" where
  "bcount buf = unat (DecodeFixed32 buf (length buf - 4))"

definition blimit :: "bytes \<Rightarrow> nat" where
  "blimit buf = length buf - (1 + bcount buf) * 4"

definition rpoint :: "bytes \<Rightarrow> nat \<Rightarrow> nat" where
  "rpoint buf j = unat (DecodeFixed32 buf (blimit buf + j * 4))"


text \<open>
  An iterator over the block that stands on the entry \<open>e\<close>, and one that is past the
  ends of the block.
\<close>

definition positioned :: "(bytes \<Rightarrow> bytes \<Rightarrow> int) \<Rightarrow> bytes \<Rightarrow> Iter \<Rightarrow> entry \<Rightarrow> bool" where
  "positioned cmp buf it e =
     (iterator_over cmp buf it
      \<and> current_' it = of_nat (eoffset e)
      \<and> key_' it = ekey e
      \<and> value_' it = Slice (Some (evalue_offset e)) (evalue_length e)
      \<and> restart_index_' it < num_restarts_' it)"

definition finished :: "(bytes \<Rightarrow> bytes \<Rightarrow> int) \<Rightarrow> bytes \<Rightarrow> Iter \<Rightarrow> bool" where
  "finished cmp buf it =
     (iterator_over cmp buf it
      \<and> current_' it = restarts_' it
      \<and> restart_index_' it = num_restarts_' it)"

text \<open>\<open>SeekToFirst\<close> and then \<open>i\<close> times \<open>Next\<close>; \<open>SeekToLast\<close> and then \<open>i\<close> times \<open>Prev\<close>.\<close>

definition first_then_next :: "nat \<Rightarrow> Iter \<Rightarrow> fault + Iter" where
  "first_then_next i it =
     (case SeekToFirst it of Inl e \<Rightarrow> Inl e | Inr it1 \<Rightarrow> Next_times i it1)"

definition last_then_prev :: "nat \<Rightarrow> Iter \<Rightarrow> (fault + Iter) option" where
  "last_then_prev i it =
     (case SeekToLast it of
        None \<Rightarrow> None
      | Some (Inl e) \<Rightarrow> Some (Inl e)
      | Some (Inr it1) \<Rightarrow> Prev_times i it1)"

text \<open>
  The entries of \<open>three_entry_block\<close>, and three states of an iterator over it: on the
  first entry, after \<open>Prev\<close> from there, and after \<open>ParseNextKey\<close> from there.
\<close>

definition three_entries :: "entry list" where
  "three_entries =
     [Entry 0 [0x61, 0x70, 0x70, 0x6c, 0x65] 8 2 0,
      Entry 10 [0x61, 0x70, 0x70, 0x6c, 0x79] 14 2 4,
      Entry 16 [0x62] 20 2 0]"

definition on_first_entry :: Iter where
  "on_first_entry =
     \<lparr>comparator_' = bytewise_compare, data_' = three_entry_block, restarts_' = 22,
      num_restarts_' = 2, current_' = 0, restart_index_' = 0,
      key_' = [0x61, 0x70, 0x70, 0x6c, 0x65], value_' = Slice (Some 8) 2, status_' = OK\<rparr>"

definition off_the_front :: Iter where
  "off_the_front = on_first_entry\<lparr>current_' := 22, restart_index_' := 2\<rparr>"

definition back_on_second_entry :: Iter where
  "back_on_second_entry =
     off_the_front\<lparr>current_' := 10, key_' := [0x61, 0x70, 0x70, 0x6c, 0x79],
                    value_' := Slice (Some 14) 2\<rparr>"

section \<open>Internal keys: parsing the canonical encoding\<close>

lemma byte_ranges:
  "n < 64 \<Longrightarrow> n < 8 \<or> (8 \<le> n \<and> n < 16) \<or> (16 \<le> n \<and> n < 24) \<or> (24 \<le> n \<and> n < 32)
     \<or> (32 \<le> n \<and> n < 40) \<or> (40 \<le> n \<and> n < 48) \<or> (48 \<le> n \<and> n < 56)
     \<or> 56 \<le> n" for n :: nat
  by linarith

lemma DecodeFixed64_EncodeFixed64:
  "DecodeFixed64 (pre @ EncodeFixed64 v) (length pre) = v"
proof (rule bit_word_eqI)
  fix n assume n: "n < LENGTH(64)"
  then have n64: "n < 64" by simp
  have "bit (DecodeFixed64 (pre @ EncodeFixed64 v) (length pre)) n =
     ((n < 8 \<or> (8 \<le> n \<and> n < 16) \<or> (16 \<le> n \<and> n < 24) \<or> (24 \<le> n \<and> n < 32)
     \<or> (32 \<le> n \<and> n < 40) \<or> (40 \<le> n \<and> n < 48) \<or> (48 \<le> n \<and> n < 56)
     \<or> 56 \<le> n) \<and> bit v n)"
    unfolding DecodeFixed64_def EncodeFixed64_def using n64
    by (simp add: nth_append bit_simps less_diff_conv2 cong: conj_cong) blast
  with byte_ranges [OF n64]
  show "bit (DecodeFixed64 (pre @ EncodeFixed64 v) (length pre)) n = bit v n"
    by simp
qed

lemma length_EncodeFixed64: "length (EncodeFixed64 v) = 8"
  by (simp add: EncodeFixed64_def)

lemma PackSequenceAndType_sequence:
  assumes "seq < 2 ^ 56"
  shows "drop_bit 8 (PackSequenceAndType seq t) = seq"
proof -
  have b: "take_bit 56 seq = seq" using assms
    by (simp add: take_bit_eq_mask less_mask_eq)
  have "drop_bit 8 (PackSequenceAndType seq t) = take_bit 56 seq"
    unfolding PackSequenceAndType_def
    by (rule bit_word_eqI, cases t) (simp_all add: bit_simps ValueType_byte_def)
  with b show ?thesis by simp
qed

lemma PackSequenceAndType_type:
  "ucast (PackSequenceAndType seq t AND 0xff) = ValueType_byte t"
  unfolding PackSequenceAndType_def
  by (rule bit_word_eqI, cases t)
     (simp_all add: bit_simps ValueType_byte_def cong: conj_cong)

lemma ValueType_byte_le: "ValueType_byte t \<le> ValueType_byte kTypeValue"
  by (cases t) (simp_all add: ValueType_byte_def)

lemma ValueType_byte_inverse:
  "(if ValueType_byte t = 0x0 then kTypeDeletion else kTypeValue) = t"
  by (cases t) (simp_all add: ValueType_byte_def)

text \<open>
  C2. Parsing the canonical encoding \<open>UK || fixed64-le(SN<<8 | VT)\<close> of a parsed
  internal key with \<open>SN < 2^56\<close> (the value type is one of the two enumerators by its
  type) succeeds and gives back exactly the user key, the sequence number and the value
  type. The encoding is eight bytes longer than the user key, the user key is its prefix
  of length \<open>|encoding| - 8\<close>, the sequence number is the trailing tag shifted right by
  eight bits and the value type is the tag's low byte.
\<close>

theorem ParseInternalKey_AppendInternalKey:
  assumes "sn < 2 ^ 56"
  shows "let k = \<lparr>user_key = uk, sequence = sn, vtype = vt\<rparr>;
             enc = AppendInternalKey [] k;
             tag = DecodeFixed64 enc (length enc - 8)
         in ParseInternalKey enc = Some k
          \<and> length enc = length uk + 8
          \<and> uk = take (length enc - 8) enc
          \<and> sn = drop_bit 8 tag
          \<and> ValueType_byte vt = ucast (tag AND 0xff)"
proof -
  let ?tag = "PackSequenceAndType sn vt"
  let ?enc = "uk @ EncodeFixed64 ?tag"
  have len: "length ?enc = length uk + 8" by (simp add: length_EncodeFixed64)
  have tag: "DecodeFixed64 ?enc (length ?enc - 8) = ?tag"
    using DecodeFixed64_EncodeFixed64 [of uk ?tag] by (simp add: length_EncodeFixed64)
  have seq: "drop_bit 8 ?tag = sn" using assms by (rule PackSequenceAndType_sequence)
  have ty: "(ucast (?tag AND 0xff) :: byte) = ValueType_byte vt"
    by (rule PackSequenceAndType_type)
  have parse: "ParseInternalKey ?enc = Some \<lparr>user_key = uk, sequence = sn, vtype = vt\<rparr>"
    unfolding ParseInternalKey_def Let_def tag seq ty
    by (simp add: length_EncodeFixed64 ValueType_byte_le ValueType_byte_inverse)
  show ?thesis
    unfolding Let_def AppendInternalKey_def
    using parse tag seq ty by (simp add: length_EncodeFixed64)
qed

theorem ParseInternalKey_AppendInternalKey_witness:
  "(5 :: u64) < 2 ^ 56 \<and>
   ParseInternalKey (AppendInternalKey []
       \<lparr>user_key = [0x61], sequence = 5, vtype = kTypeValue\<rparr>)
     = Some \<lparr>user_key = [0x61], sequence = 5, vtype = kTypeValue\<rparr>"
proof -
  have h: "(5 :: u64) < 2 ^ 56" by simp
  show ?thesis
    using h ParseInternalKey_AppendInternalKey [OF h, of "[0x61]" kTypeValue]
    by (simp add: Let_def)
qed

section \<open>Block construction and the kinds of iterator\<close>

lemmas block_eval_defs =
  new_Block_def NumRestarts_def NewIterator_def new_Iter_def DecodeFixed32_def Let_def
  SeekToFirst_def SeekToRestartPoint_def GetRestartPoint_def ParseNextKey_def
  NextEntryOffset_def DecodeEntry_def GetVarint32Ptr_def Valid_def Next_def
  key_def value_def status_def CorruptionError_def Compare_def
  word_less_nat_alt word_le_nat_alt

lemma unat_of_nat32: "n < 2 ^ 32 \<Longrightarrow> unat (of_nat n :: u32) = n"
  by (simp add: unat_of_nat)




text \<open>
  C10. On a block that is not corrupt and has \<open>restartCount > 0\<close>, the iterator that
  \<open>NewIterator\<close> returns is not valid: its cursor is the offset of the restart array
  and its restart index is the number of restarts. \<open>key()\<close> and \<open>value()\<close> assert
  \<open>Valid()\<close>, so on the fresh iterator they fail that assertion.
\<close>

theorem fresh_iterator_invalid:
  assumes "4 \<le> size_' b" and "NumRestarts b \<noteq> 0"
  shows "let it = new_Iter cmp (block_data_' b) (restart_offset_' b) (NumRestarts b)
         in NewIterator b cmp = BlockIter it
          \<and> \<not> Valid it
          \<and> current_' it = restart_offset_' b
          \<and> restart_index_' it = NumRestarts b
          \<and> key it = Inl AssertionFailure
          \<and> value it = Inl AssertionFailure"
  using assms
  by (simp add: NewIterator_def Let_def new_Iter_def Valid_def key_def value_def)

theorem fresh_iterator_invalid_witness:
  "4 \<le> size_' (new_Block three_entry_block False) \<and>
   NumRestarts (new_Block three_entry_block False) \<noteq> 0 \<and>
   NewIterator (new_Block three_entry_block False) bytewise_compare
     = BlockIter (new_Iter bytewise_compare three_entry_block 22 2) \<and>
   \<not> Valid (new_Iter bytewise_compare three_entry_block 22 2) \<and>
   key (new_Iter bytewise_compare three_entry_block 22 2) = Inl AssertionFailure"
proof -
  have e0: "new_Block three_entry_block False =
    \<lparr>block_data_' = three_entry_block, size_' = 34, restart_offset_' = 22, owned_' = False\<rparr>"
    by (simp add: three_entry_block_def new_Block_def NumRestarts_def DecodeFixed32_def Let_def
          word_less_nat_alt word_le_nat_alt)
  have e3: "NumRestarts (new_Block three_entry_block False) = 2"
    unfolding e0 by (simp add: three_entry_block_def NumRestarts_def DecodeFixed32_def)
  have h1: "4 \<le> size_' (new_Block three_entry_block False)" unfolding e0 by simp
  have h2: "NumRestarts (new_Block three_entry_block False) \<noteq> 0" unfolding e3 by simp
  show ?thesis
    using h1 h2 fresh_iterator_invalid [OF h1 h2, of bytewise_compare]
    unfolding e3 by (simp add: Let_def e0)
qed

section \<open>Two executions of the iterator\<close>

text \<open>
  C3, at \<open>overflow_block\<close>. The only entry declares \<open>non_shared = 1\<close> and
  \<open>value_length = 0xFFFFFFFF\<close>, and a single byte remains before the restart array.
  \<open>DecodeEntry\<close> compares the remaining byte count with the 32-bit sum
  \<open>non_shared + value_length\<close>, which is 0, and accepts the entry; \<open>SeekToFirst\<close>
  leaves the iterator valid with status OK, the key \<open>a\<close> and a value slice of
  \<open>0xFFFFFFFF\<close> bytes starting at the restart array.
\<close>

theorem entry_length_overflow_accepted:
  "DecodeEntry overflow_block 0 8 = Some (7, 0, 1, 0xFFFFFFFF) \<and>
   (case NewIterator (new_Block overflow_block False) bytewise_compare of
      BlockIter it \<Rightarrow>
        restarts_' it = 8 \<and>
        (case SeekToFirst it of
           Inr it' \<Rightarrow> Valid it' \<and> status it' = OK \<and> current_' it' = 0
                    \<and> key it' = Inr [0x61]
                    \<and> value it' = Inr (Slice (Some 8) 4294967295)
         | Inl e \<Rightarrow> False)
    | _ \<Rightarrow> False)"
  by (simp add: overflow_block_def block_eval_defs)

text \<open>
  C5, at \<open>three_entry_block\<close>. After \<open>SeekToFirst\<close> and two calls of \<open>Next\<close> the
  iterator is valid on the third entry, at offset 16, which is restart point 1; the
  loop in \<open>ParseNextKey\<close> advances \<open>restart_index_\<close> only while the next restart point
  is strictly below the cursor, so \<open>restart_index_\<close> is still 0.
\<close>

theorem restart_index_lags_at_restart_point:
  "case NewIterator (new_Block three_entry_block False) bytewise_compare of
     BlockIter it \<Rightarrow>
       (case SeekToFirst it of
          Inr it1 \<Rightarrow>
            (case Next it1 of
               Inr it2 \<Rightarrow>
                 (case Next it2 of
                    Inr it3 \<Rightarrow>
                      Valid it3 \<and> current_' it3 = 16 \<and> restart_index_' it3 = 0
                      \<and> GetRestartPoint it3 0 = Inr 0
                      \<and> GetRestartPoint it3 1 = Inr 16
                      \<and> num_restarts_' it3 = 2
                  | Inl e \<Rightarrow> False)
             | Inl e \<Rightarrow> False)
        | Inl e \<Rightarrow> False)
   | _ \<Rightarrow> False"
  by (simp add: three_entry_block_def block_eval_defs)

section \<open>The environment: reads near the end of a file, locking twice\<close>

lemmas env_eval_defs =
  example_kernel_def example_env_def NewRandomAccessFile_def new_PosixRandomAccessFile_def
  Read_def LockFile_def UnlockFile_def LockOrUnlock_def PosixLockTable_Insert_def
  PosixLockTable_Remove_def GetFileSize_def Limiter_Acquire_def Limiter_Release_def
  sys_open_def sys_close_def sys_pread_def sys_stat_size_def sys_mmap_def
  sys_fcntl_setlk_def fcntl_errno_def posix_IOError_def strerror_def Let_def

subsection \<open>Reads at and past the end of a random-access file\<close>

lemma Limiter_Acquire_cases:
  "Limiter_Acquire l = (if l \<le> 0 then (False, l) else (True, l - 1))"
  by (simp add: Limiter_Acquire_def Let_def)

lemma sint_small: "unat (w :: u64) < 2 ^ 63 \<Longrightarrow> sint w = int (unat w)"
proof -
  assume a: "unat w < 2 ^ 63"
  have "int (unat w) < 2 ^ 63" using a by (simp only: of_nat_less_iff [symmetric, where ?'a = int]) simp
  then have "uint w < 2 ^ 63" by simp
  moreover have "- (2 ^ 63) \<le> uint w"
    by (rule order_trans [of _ 0]) simp_all
  ultimately have "signed_take_bit 63 (uint w) = uint w"
    by (rule signed_take_bit_int_eq_self [rotated])
  then show ?thesis by (simp add: sint_uint)
qed

text \<open>
  C6, as the code has it. Let a file of size \<open>L\<close> be opened through
  \<open>NewRandomAccessFile\<close> and read at \<open>(offset, n)\<close> with \<open>offset + n < 2^63\<close>. The
  descriptor-based variant returns OK with the bytes \<open>[offset, min (offset + n) L)\<close>:
  nothing when \<open>offset \<ge> L\<close>, the short slice \<open>[offset, L)\<close> when
  \<open>offset < L < offset + n\<close>. The memory-mapped variant returns OK with the \<open>n\<close> bytes at
  \<open>offset\<close> when \<open>offset + n \<le> L\<close>, and an IOError (EINVAL) with an empty result
  whenever \<open>offset + n > L\<close>.
\<close>

theorem RandomAccessFile_Read_near_eof:
  assumes new: "NewRandomAccessFile env k fname = (s, Some file, env', k')"
      and contents: "files k fname = Some contents"
      and range: "unat offset + unat n < 2 ^ 63"
  shows "case file of
           PosixRandomAccessFile filename temporary_fd held_fd \<Rightarrow>
             fst (Read file k' offset n) = OK
             \<and> fst (snd (Read file k' offset n))
                 = Data (take (unat n) (drop (unat offset) contents))
             \<and> (length contents \<le> unat offset \<longrightarrow>
                  fst (snd (Read file k' offset n)) = Data [])
             \<and> (unat offset < length contents \<and> length contents < unat offset + unat n \<longrightarrow>
                  fst (snd (Read file k' offset n)) = Data (drop (unat offset) contents))
         | PosixMmapReadableFile filename mmapped_region length' \<Rightarrow>
             (unat offset + unat n \<le> length contents \<longrightarrow>
                fst (Read file k' offset n) = OK
                \<and> fst (snd (Read file k' offset n))
                    = Data (take (unat n) (drop (unat offset) contents)))
             \<and> (length contents < unat offset + unat n \<longrightarrow>
                  fst (Read file k' offset n) = IOError fname (strerror EINVAL)
                  \<and> fst (snd (Read file k' offset n)) = Data [])"
proof -
  have acc: "fname \<notin> inaccessible k"
    using new by (auto simp: NewRandomAccessFile_def sys_open_def split: if_splits)
  define k1 where "k1 = k\<lparr>fd_table := (fd_table k)(next_fd k \<mapsto> fname), next_fd := next_fd k + 1\<rparr>"
  have open1: "sys_open k fname False = (k1, Inr (next_fd k))"
    using acc contents by (simp add: sys_open_def k1_def)
  have off: "sint offset = int (unat offset)"
    using range by (intro sint_small) simp
  have sum: "unat (offset + n) = unat offset + unat n"
    using range by (simp add: unat_word_ariths)
  show ?thesis
  proof (cases "mmap_limit_' env \<le> 0")
    case True
    show ?thesis
    proof (cases "fd_limit_' env \<le> 0")
      case t: True
      have f: "file = PosixRandomAccessFile fname True None" and k': "k' = sys_close k1 (next_fd k)"
        using new True t
        by (simp_all add: NewRandomAccessFile_def open1 Limiter_Acquire_cases
              new_PosixRandomAccessFile_def)
      have k'eq: "k' = k\<lparr>fd_table := (fd_table k)(next_fd k := None), next_fd := next_fd k + 1,
                         own_locks := own_locks k - {fname}\<rparr>"
        unfolding k' by (simp add: sys_close_def k1_def)
      show ?thesis
        unfolding f using acc contents off
        by (auto simp add: Read_def k'eq sys_open_def sys_pread_def sys_close_def Let_def)
    next
      case f: False
      have fl: "file = PosixRandomAccessFile fname False (Some (next_fd k))" and k': "k' = k1"
        using new True f
        by (simp_all add: NewRandomAccessFile_def open1 Limiter_Acquire_cases
              new_PosixRandomAccessFile_def)
      show ?thesis
        unfolding fl k' using acc contents off
        by (auto simp add: Read_def k1_def sys_pread_def Let_def)
    qed
  next
    case False
    have st: "GetFileSize k1 fname = (OK, length contents)"
      using acc contents by (simp add: GetFileSize_def sys_stat_size_def k1_def)
    have mm: "sys_mmap k1 (next_fd k) (length contents)
        = (if length contents = 0 then Inl EINVAL else Inr contents)"
      using contents by (simp add: sys_mmap_def k1_def)
    have fl: "file = PosixMmapReadableFile fname contents (length contents)"
      using new False
      by (auto simp add: NewRandomAccessFile_def open1 Limiter_Acquire_cases st mm Let_def
            posix_IOError_def split: if_splits)
    show ?thesis
      unfolding fl using sum
      by (auto simp add: Read_def posix_IOError_def)
  qed
qed

theorem RandomAccessFile_Read_near_eof_witness:
  "NewRandomAccessFile (example_env 0) example_kernel ''f''
     = (OK, Some (PosixRandomAccessFile ''f'' False (Some 3)),
        \<lparr>locks_' = {}, mmap_limit_' = 0, fd_limit_' = 49\<rparr>,
        example_kernel\<lparr>fd_table := [3 \<mapsto> ''f''], next_fd := 4\<rparr>)
   \<and> files example_kernel ''f'' = Some [1, 2, 3, 4]
   \<and> unat (2 :: u64) + unat (4 :: u64) < 2 ^ 63
   \<and> fst (snd (Read (PosixRandomAccessFile ''f'' False (Some 3))
                  (example_kernel\<lparr>fd_table := [3 \<mapsto> ''f''], next_fd := 4\<rparr>) 2 4))
       = Data [3, 4]"
proof -
  have h1: "NewRandomAccessFile (example_env 0) example_kernel ''f''
     = (OK, Some (PosixRandomAccessFile ''f'' False (Some 3)),
        \<lparr>locks_' = {}, mmap_limit_' = 0, fd_limit_' = 49\<rparr>,
        example_kernel\<lparr>fd_table := [3 \<mapsto> ''f''], next_fd := 4\<rparr>)"
    by (simp add: env_eval_defs)
  have h2: "files example_kernel ''f'' = Some [1, 2, 3, 4]"
    by (simp add: example_kernel_def)
  have h3: "unat (2 :: u64) + unat (4 :: u64) < 2 ^ 63" by simp
  show ?thesis
    using h1 h2 h3 RandomAccessFile_Read_near_eof [OF h1 h2 h3]
    by simp
qed

text \<open>
  C6 as stated fails on the memory-mapped variant: on the four-byte file,
  \<open>NewRandomAccessFile\<close> with mmaps allowed returns the mapped file, and both a read
  at the end of the file and a read that straddles the end return an IOError and an
  empty result.
\<close>

theorem mmap_Read_past_eof_counterexample:
  "fst (snd (NewRandomAccessFile (example_env 1000) example_kernel ''f''))
     = Some (PosixMmapReadableFile ''f'' [1, 2, 3, 4] 4)
   \<and> fst (Read (PosixMmapReadableFile ''f'' [1, 2, 3, 4] 4) example_kernel 4 1)
       = IOError ''f'' ''Invalid argument''
   \<and> fst (snd (Read (PosixMmapReadableFile ''f'' [1, 2, 3, 4] 4) example_kernel 4 1))
       = Data []
   \<and> fst (Read (PosixMmapReadableFile ''f'' [1, 2, 3, 4] 4) example_kernel 2 4)
       = IOError ''f'' ''Invalid argument''
   \<and> fst (snd (Read (PosixMmapReadableFile ''f'' [1, 2, 3, 4] 4) example_kernel 2 4))
       = Data []"
  by (simp add: env_eval_defs)

subsection \<open>Locking the same file twice\<close>

text \<open>
  C8, at the path \<open>LOCK\<close>. The first \<open>LockFile\<close> succeeds with descriptor 3 and the
  process holds the record lock. The second \<open>LockFile\<close> opens a second descriptor, finds
  the path in the lock table, closes the second descriptor and returns the IOError
  ``already held by process''. The path is still in the lock table and descriptor 3 is
  still open, but the \<open>close\<close> of the second descriptor has released the record lock of
  the process on the file.
\<close>

theorem second_LockFile_drops_record_lock:
  "LockFile (example_env 1000) example_kernel ''LOCK''
     = (OK, Some \<lparr>fd_' = 3, name_' = ''LOCK''\<rparr>, env_after_first_lock,
        kernel_after_first_lock)
   \<and> ''LOCK'' \<in> own_locks kernel_after_first_lock
   \<and> fst (LockFile env_after_first_lock kernel_after_first_lock ''LOCK'')
       = IOError ''lock LOCK'' ''already held by process''
   \<and> fst (snd (LockFile env_after_first_lock kernel_after_first_lock ''LOCK'')) = None
   \<and> ''LOCK'' \<in> locks_' (fst (snd (snd
         (LockFile env_after_first_lock kernel_after_first_lock ''LOCK''))))
   \<and> fd_table (snd (snd (snd
         (LockFile env_after_first_lock kernel_after_first_lock ''LOCK'')))) 3
       = Some ''LOCK''
   \<and> ''LOCK'' \<notin> own_locks (snd (snd (snd
         (LockFile env_after_first_lock kernel_after_first_lock ''LOCK''))))"
  by (simp add: env_eval_defs kernel_after_first_lock_def env_after_first_lock_def)

section \<open>The background queue runs the callables in submission order\<close>

lemma finished_calls_append [simp]:
  "finished_calls (es @ es') = finished_calls es @ finished_calls es'"
  by (induction es rule: finished_calls.induct) simp_all

lemma serial_trace_append [simp]:
  "serial_trace (cs @ cs') = serial_trace cs @ serial_trace cs'"
  by (simp add: serial_trace_def)

lemma finished_calls_serial_trace [simp]: "finished_calls (serial_trace cs) = cs"
  by (induction cs) (simp_all add: serial_trace_def)

lemma bg_inv_init: "bg_inv cs (bg_init cs)"
  by (simp add: bg_inv_def bg_init_def submitter_holds_def worker_holds_def
        serial_trace_def running_event_def in_flight_def queue_shape_def)

lemma map_item_of_eq_Nil [simp]: "(map item_of qc = []) = (qc = [])"
  by simp

lemma item_of_fields [simp]:
  "function (item_of c) = Some (fst c)" "arg (item_of c) = Some (snd c)"
  by (simp_all add: item_of_def)

lemma Schedule_step_inv:
  assumes inv: "bg_inv cs s" and step: "Schedule_step s = Some s'"
  shows "bg_inv cs s'"
proof -
  from step obtain f a rest where todo: "to_submit s = (f, a) # rest"
    by (auto simp: Schedule_step_def split: list.splits)
  from inv obtain qc where
        m1: "mu s = Some Submitter \<longleftrightarrow> submitter_holds (spc s)"
    and m2: "mu s = Some Worker \<longleftrightarrow> worker_holds (bpc s)"
    and cr: "bpc s = B_not_created \<longleftrightarrow> \<not> started_bgthread s"
    and tr: "trace s = serial_trace (finished_calls (trace s)) @ running_event (bpc s)"
    and q: "queue s = queue_shape (spc s) qc (to_submit s)"
    and c: "cs = finished_calls (trace s) @ in_flight (bpc s) @ qc @ to_submit s"
    and w: "(case bpc s of
               B_at_front \<Rightarrow> qc \<noteq> []
             | B_has_function f \<Rightarrow> qc \<noteq> [] \<and> fst (hd qc) = f
             | B_has_arg f a \<Rightarrow> qc \<noteq> [] \<and> hd qc = (f, a)
             | _ \<Rightarrow> True)"
    unfolding bg_inv_def by blast
  show ?thesis
  proof (cases "spc s")
    case S_outside
    with step todo have s': "s' = s\<lparr>mu := Some Submitter, spc := S_locked\<rparr>" and free: "mu s = None"
      by (auto simp: Schedule_step_def split: if_splits)
    from free m2 have nw: "\<not> worker_holds (bpc s)" by simp
    show ?thesis unfolding bg_inv_def s'
      using nw cr tr q c w todo S_outside
      by (auto simp: submitter_holds_def queue_shape_def intro!: exI [of _ qc])
  next
    case S_locked
    with m1 have held: "mu s = Some Submitter" by (simp add: submitter_holds_def)
    with m2 have nw: "\<not> worker_holds (bpc s)" by simp
    show ?thesis
    proof (cases "started_bgthread s")
      case True
      with step todo S_locked have s': "s' = s\<lparr>spc := S_thread_checked\<rparr>"
        by (auto simp: Schedule_step_def)
      show ?thesis unfolding bg_inv_def s'
        using held nw cr tr q c w todo S_locked
        by (auto simp: submitter_holds_def queue_shape_def intro!: exI [of _ qc])
    next
      case False
      with step todo S_locked have s': "s' = s\<lparr>started_bgthread := True, bpc := B_loop_top,
                           spc := S_thread_checked\<rparr>"
        by (auto simp: Schedule_step_def)
      from False cr have b: "bpc s = B_not_created" by simp
      show ?thesis unfolding bg_inv_def s'
        using held b tr q c todo S_locked
        by (auto simp: submitter_holds_def worker_holds_def queue_shape_def in_flight_def
              running_event_def intro!: exI [of _ qc])
    qed
  next
    case S_thread_checked
    with m1 have held: "mu s = Some Submitter" by (simp add: submitter_holds_def)
    with m2 have nw: "\<not> worker_holds (bpc s)" by simp
    from step todo S_thread_checked have s': "s' = s\<lparr>spc := S_signal_checked\<rparr>"
      by (auto simp: Schedule_step_def)
    show ?thesis unfolding bg_inv_def s'
      using held nw cr tr q c w todo S_thread_checked
      by (auto simp: submitter_holds_def queue_shape_def intro!: exI [of _ qc])
  next
    case S_signal_checked
    with m1 have held: "mu s = Some Submitter" by (simp add: submitter_holds_def)
    with m2 have nw: "\<not> worker_holds (bpc s)" by simp
    from step todo S_signal_checked
    have s': "s' = s\<lparr>queue := queue s @ [\<lparr>arg = None, function = None\<rparr>], spc := S_pushed\<rparr>"
      by (auto simp: Schedule_step_def)
    show ?thesis unfolding bg_inv_def s'
      using held nw cr tr q c w todo S_signal_checked
      by (auto simp: submitter_holds_def queue_shape_def intro!: exI [of _ qc])
  next
    case S_pushed
    with m1 have held: "mu s = Some Submitter" by (simp add: submitter_holds_def)
    with m2 have nw: "\<not> worker_holds (bpc s)" by simp
    from q S_pushed have qs: "queue s = map item_of qc @ [\<lparr>arg = None, function = None\<rparr>]"
      by (simp add: queue_shape_def)
    from step todo S_pushed qs
    have s': "s' = s\<lparr>queue := map item_of qc @ [\<lparr>arg = None, function = Some f\<rparr>],
                      spc := S_function_set\<rparr>"
      by (auto simp: Schedule_step_def)
    show ?thesis unfolding bg_inv_def s'
      using held nw cr tr c w todo
      by (auto simp: submitter_holds_def queue_shape_def intro!: exI [of _ qc])
  next
    case S_function_set
    with m1 have held: "mu s = Some Submitter" by (simp add: submitter_holds_def)
    with m2 have nw: "\<not> worker_holds (bpc s)" by simp
    from q S_function_set todo
    have qs: "queue s = map item_of qc @ [\<lparr>arg = None, function = Some f\<rparr>]"
      by (simp add: queue_shape_def)
    from step todo S_function_set qs
    have s': "s' = s\<lparr>queue := map item_of qc @ [\<lparr>arg = Some a, function = Some f\<rparr>],
                      spc := S_arg_set\<rparr>"
      by (auto simp: Schedule_step_def)
    show ?thesis unfolding bg_inv_def s'
      using held nw cr tr c w todo
      by (auto simp: submitter_holds_def queue_shape_def item_of_def intro!: exI [of _ qc])
  next
    case S_arg_set
    with m1 have held: "mu s = Some Submitter" by (simp add: submitter_holds_def)
    with m2 have nw: "\<not> worker_holds (bpc s)" by simp
    from q S_arg_set todo
    have qs: "queue s = map item_of (qc @ [(f, a)])"
      by (simp add: queue_shape_def)
    from step todo S_arg_set
    have s': "s' = s\<lparr>mu := None, to_submit := rest, spc := S_outside\<rparr>"
      by (auto simp: Schedule_step_def)
    have w': "(case bpc s of
               B_at_front \<Rightarrow> qc @ [(f, a)] \<noteq> []
             | B_has_function f' \<Rightarrow> qc @ [(f, a)] \<noteq> [] \<and> fst (hd (qc @ [(f, a)])) = f'
             | B_has_arg f' a' \<Rightarrow> qc @ [(f, a)] \<noteq> [] \<and> hd (qc @ [(f, a)]) = (f', a')
             | _ \<Rightarrow> True)"
      using nw by (auto simp: worker_holds_def split: bgthread_pc.splits)
    show ?thesis unfolding bg_inv_def s'
      using nw cr tr c w' todo qs
      by (auto simp: submitter_holds_def queue_shape_def intro!: exI [of _ "qc @ [(f, a)]"])
  qed
qed

lemma BGThread_step_inv:
  assumes inv: "bg_inv cs s" and step: "BGThread_step s = Some s'"
  shows "bg_inv cs s'"
proof -
  from inv obtain qc where
        m1: "mu s = Some Submitter \<longleftrightarrow> submitter_holds (spc s)"
    and m2: "mu s = Some Worker \<longleftrightarrow> worker_holds (bpc s)"
    and cr: "bpc s = B_not_created \<longleftrightarrow> \<not> started_bgthread s"
    and ne: "spc s \<noteq> S_outside \<longrightarrow> to_submit s \<noteq> []"
    and tr: "trace s = serial_trace (finished_calls (trace s)) @ running_event (bpc s)"
    and q: "queue s = queue_shape (spc s) qc (to_submit s)"
    and c: "cs = finished_calls (trace s) @ in_flight (bpc s) @ qc @ to_submit s"
    and w: "(case bpc s of
               B_at_front \<Rightarrow> qc \<noteq> []
             | B_has_function f \<Rightarrow> qc \<noteq> [] \<and> fst (hd qc) = f
             | B_has_arg f a \<Rightarrow> qc \<noteq> [] \<and> hd qc = (f, a)
             | _ \<Rightarrow> True)"
    unfolding bg_inv_def by blast
  have outside: "spc s = S_outside" if "worker_holds (bpc s) \<or> mu s = None"
    using that m1 m2 by (auto simp: submitter_holds_def)
  show ?thesis
  proof (cases "bpc s")
    case B_not_created
    with step show ?thesis by (simp add: BGThread_step_def)
  next
    case B_loop_top
    with step have s': "s' = s\<lparr>mu := Some Worker, bpc := B_testing_empty\<rparr>" and free: "mu s = None"
      by (auto simp: BGThread_step_def split: if_splits)
    from free outside have o: "spc s = S_outside" by simp
    show ?thesis unfolding bg_inv_def s'
      using o cr tr q c B_loop_top
      by (auto simp: submitter_holds_def worker_holds_def in_flight_def running_event_def
            intro!: exI [of _ qc])
  next
    case B_in_cond_wait
    with step have s': "s' = s\<lparr>mu := Some Worker, bpc := B_testing_empty\<rparr>" and free: "mu s = None"
      by (auto simp: BGThread_step_def split: if_splits)
    from free outside have o: "spc s = S_outside" by simp
    show ?thesis unfolding bg_inv_def s'
      using o cr tr q c B_in_cond_wait
      by (auto simp: submitter_holds_def worker_holds_def in_flight_def running_event_def
            intro!: exI [of _ qc])
  next
    case B_testing_empty
    then have o: "spc s = S_outside" using outside by (simp add: worker_holds_def)
    with q have qs: "queue s = map item_of qc" by (simp add: queue_shape_def)
    show ?thesis
    proof (cases "queue s = []")
      case True
      with step B_testing_empty have s': "s' = s\<lparr>mu := None, bpc := B_in_cond_wait\<rparr>"
        by (auto simp: BGThread_step_def)
      show ?thesis unfolding bg_inv_def s'
        using o cr tr q c B_testing_empty
        by (auto simp: submitter_holds_def worker_holds_def in_flight_def running_event_def
              intro!: exI [of _ qc])
    next
      case False
      with step B_testing_empty have s': "s' = s\<lparr>bpc := B_at_front\<rparr>"
        by (auto simp: BGThread_step_def)
      from False qs have "qc \<noteq> []" by auto
      then show ?thesis unfolding bg_inv_def s'
        using o m2 cr tr q c B_testing_empty
        by (auto simp: submitter_holds_def worker_holds_def in_flight_def running_event_def
              intro!: exI [of _ qc])
    qed
  next
    case B_at_front
    then have o: "spc s = S_outside" using outside by (simp add: worker_holds_def)
    with q have qs: "queue s = map item_of qc" by (simp add: queue_shape_def)
    from w B_at_front have nonempty: "qc \<noteq> []" by simp
    then obtain c0 qc' where qc: "qc = c0 # qc'" by (cases qc) auto
    from step B_at_front qs qc have s': "s' = s\<lparr>bpc := B_has_function (fst c0)\<rparr>"
      by (auto simp: BGThread_step_def)
    show ?thesis unfolding bg_inv_def s'
      using o m2 cr tr q c B_at_front qc
      by (auto simp: submitter_holds_def worker_holds_def in_flight_def running_event_def
            intro!: exI [of _ qc])
  next
    case (B_has_function f)
    then have o: "spc s = S_outside" using outside by (simp add: worker_holds_def)
    with q have qs: "queue s = map item_of qc" by (simp add: queue_shape_def)
    from w B_has_function have nonempty: "qc \<noteq> []" and f: "fst (hd qc) = f" by simp_all
    then obtain c0 qc' where qc: "qc = c0 # qc'" by (cases qc) auto
    from step B_has_function qs qc have s': "s' = s\<lparr>bpc := B_has_arg f (snd c0)\<rparr>"
      by (auto simp: BGThread_step_def)
    from f qc have "c0 = (f, snd c0)" by (cases c0) auto
    then show ?thesis unfolding bg_inv_def s'
      using o m2 cr tr q c B_has_function qc
      by (auto simp: submitter_holds_def worker_holds_def in_flight_def running_event_def
            intro!: exI [of _ qc])
  next
    case (B_has_arg f a)
    then have o: "spc s = S_outside" using outside by (simp add: worker_holds_def)
    with q have qs: "queue s = map item_of qc" by (simp add: queue_shape_def)
    from w B_has_arg have nonempty: "qc \<noteq> []" and f: "hd qc = (f, a)" by simp_all
    then obtain qc' where qc: "qc = (f, a) # qc'" by (cases qc) auto
    from step B_has_arg qs qc
    have s': "s' = s\<lparr>queue := map item_of qc', bpc := B_popped f a\<rparr>"
      by (auto simp: BGThread_step_def)
    show ?thesis unfolding bg_inv_def s'
      using o m2 cr tr c B_has_arg qc
      by (auto simp: submitter_holds_def worker_holds_def in_flight_def running_event_def
            queue_shape_def intro!: exI [of _ qc'])
  next
    case (B_popped f a)
    then have o: "spc s = S_outside" using outside by (simp add: worker_holds_def)
    from step B_popped have s': "s' = s\<lparr>mu := None, bpc := B_unlocked f a\<rparr>"
      by (auto simp: BGThread_step_def)
    show ?thesis unfolding bg_inv_def s'
      using o cr tr q c B_popped
      by (auto simp: submitter_holds_def worker_holds_def in_flight_def running_event_def
            intro!: exI [of _ qc])
  next
    case (B_unlocked f a)
    from step B_unlocked
    have s': "s' = s\<lparr>trace := trace s @ [Started (f, a)], bpc := B_running f a\<rparr>"
      by (auto simp: BGThread_step_def)
    from tr B_unlocked have tr0: "trace s = serial_trace (finished_calls (trace s))"
      by (simp add: running_event_def)
    have tr': "trace s @ [Started (f, a)]
        = serial_trace (finished_calls (trace s @ [Started (f, a)])) @ [Started (f, a)]"
      using tr0 by simp
    show ?thesis unfolding bg_inv_def s'
      using m1 m2 ne cr q c B_unlocked tr'
      by (auto simp: worker_holds_def in_flight_def running_event_def
            intro!: exI [of _ qc])
  next
    case (B_running f a)
    from step B_running
    have s': "s' = s\<lparr>trace := trace s @ [Finished (f, a)], bpc := B_loop_top\<rparr>"
      by (auto simp: BGThread_step_def)
    from tr B_running
    have tr0: "trace s = serial_trace (finished_calls (trace s)) @ [Started (f, a)]"
      by (simp add: running_event_def)
    have "trace s @ [Finished (f, a)]
        = serial_trace (finished_calls (trace s)) @ serial_trace [(f, a)]"
      by (subst tr0) (simp add: serial_trace_def)
    then have tr': "trace s @ [Finished (f, a)]
        = serial_trace (finished_calls (trace s @ [Finished (f, a)]))"
      by simp
    show ?thesis unfolding bg_inv_def s'
      using m1 m2 ne cr q c B_running tr'
      by (auto simp: worker_holds_def in_flight_def running_event_def
            intro!: exI [of _ qc])
  qed
qed

lemma bg_step_inv: "bg_inv cs s \<Longrightarrow> bg_step s s' \<Longrightarrow> bg_inv cs s'"
  by (auto elim!: bg_step.cases intro: Schedule_step_inv BGThread_step_inv)

lemma bg_reachable_inv: "bg_reachable cs s \<Longrightarrow> bg_inv cs s"
  unfolding bg_reachable_def
  by (induction rule: rtranclp_induct) (auto intro: bg_inv_init bg_step_inv)

lemma bg_run_steps: "bg_run ts s = Some s' \<Longrightarrow> bg_step\<^sup>*\<^sup>* s s'"
proof (induction ts arbitrary: s)
  case Nil
  then show ?case by simp
next
  case (Cons t ts)
  show ?case
  proof (cases t)
    case Submitter
    with Cons.prems obtain s1 where 1: "Schedule_step s = Some s1" and 2: "bg_run ts s1 = Some s'"
      by (auto split: option.splits)
    from 1 have st: "bg_step s s1" by (rule bg_step.submitter)
    show ?thesis by (rule converse_rtranclp_into_rtranclp [OF st Cons.IH [OF 2]])
  next
    case Worker
    with Cons.prems obtain s1 where 1: "BGThread_step s = Some s1" and 2: "bg_run ts s1 = Some s'"
      by (auto split: option.splits)
    from 1 have st: "bg_step s s1" by (rule bg_step.worker)
    show ?thesis by (rule converse_rtranclp_into_rtranclp [OF st Cons.IH [OF 2]])
  qed
qed

text \<open>
  C9. Let one thread submit the callables \<open>cs\<close> through \<open>Schedule\<close>, one call after
  the other, while the background thread runs \<open>BGThread\<close>, the two interleaved in any
  way. In every state that can be reached, the events of the background thread so far
  (a callable starts, a callable returns) are an initial part of the serial trace of
  \<open>cs\<close>, in which the callables start in submission order and each returns before the
  next one starts; and once everything is submitted, the queue is empty and the
  background thread is between two callables, the events are exactly that serial
  trace.
\<close>

theorem background_order:
  assumes "bg_reachable cs s"
  shows "prefix (trace s) (serial_trace cs)
       \<and> (to_submit s = [] \<and> queue s = []
            \<and> bpc s \<in> {B_loop_top, B_testing_empty, B_in_cond_wait}
          \<longrightarrow> trace s = serial_trace cs)"
proof -
  from assms have inv: "bg_inv cs s" by (rule bg_reachable_inv)
  then obtain qc where
        tr: "trace s = serial_trace (finished_calls (trace s)) @ running_event (bpc s)"
    and q: "queue s = queue_shape (spc s) qc (to_submit s)"
    and ne: "spc s \<noteq> S_outside \<longrightarrow> to_submit s \<noteq> []"
    and c: "cs = finished_calls (trace s) @ in_flight (bpc s) @ qc @ to_submit s"
    unfolding bg_inv_def by blast
  let ?fin = "finished_calls (trace s)"
  have "prefix (running_event (bpc s)) (serial_trace (in_flight (bpc s) @ qc @ to_submit s))"
    by (cases "bpc s") (simp_all add: running_event_def in_flight_def serial_trace_def)
  then have "prefix (serial_trace ?fin @ running_event (bpc s))
      (serial_trace ?fin @ serial_trace (in_flight (bpc s) @ qc @ to_submit s))"
    by simp
  then have p: "prefix (trace s) (serial_trace cs)"
    using tr c by (metis serial_trace_append)
  have "trace s = serial_trace cs"
    if a: "to_submit s = []" "queue s = []" "bpc s \<in> {B_loop_top, B_testing_empty, B_in_cond_wait}"
  proof -
    from a(1) ne have "spc s = S_outside" by auto
    with q a(2) have "qc = []" by (simp add: queue_shape_def)
    moreover from a(3) have "in_flight (bpc s) = []" "running_event (bpc s) = []"
      by (auto simp: in_flight_def running_event_def)
    ultimately show ?thesis using tr c a(1) by simp
  qed
  with p show ?thesis by blast
qed

lemma interleaved_run:
  "bg_run interleaved_schedule (bg_init two_callables) =
     Some \<lparr>mu = None, started_bgthread = True, queue = [], to_submit = [],
           spc = S_outside, bpc = B_loop_top,
           trace = [Started (1, 10), Finished (1, 10), Started (2, 20), Finished (2, 20)]\<rparr>"
  by (simp add: interleaved_schedule_def two_callables_def bg_init_def
        Schedule_step_def BGThread_step_def numeral_eq_Suc)

theorem background_order_witness:
  "bg_reachable two_callables
       \<lparr>mu = None, started_bgthread = True, queue = [], to_submit = [],
        spc = S_outside, bpc = B_loop_top,
        trace = [Started (1, 10), Finished (1, 10), Started (2, 20), Finished (2, 20)]\<rparr>
   \<and> [Started (1, 10), Finished (1, 10), Started (2, 20), Finished (2, 20)]
       = serial_trace two_callables"
proof -
  have h: "bg_reachable two_callables
       \<lparr>mu = None, started_bgthread = True, queue = [], to_submit = [],
        spc = S_outside, bpc = B_loop_top,
        trace = [Started (1, 10), Finished (1, 10), Started (2, 20), Finished (2, 20)]\<rparr>"
    unfolding bg_reachable_def by (rule bg_run_steps [OF interleaved_run])
  show ?thesis
    using h background_order [OF h] by simp
qed

section \<open>Iterating over a well-formed block\<close>

lemma block_entries_Nil: "block_entries buf limit p prev = Some [] \<Longrightarrow> p = limit"
  by (subst (asm) block_entries.simps) (auto split: if_splits option.splits prod.splits)

lemma block_entries_Cons:
  assumes "block_entries buf limit p prev = Some (e # es)"
  obtains q sh ns vl where
    "p < limit"
    "DecodeEntry buf p limit = Some (q, sh, ns, vl)"
    "unat sh \<le> length prev"
    "q + unat ns + unat vl \<le> limit"
    "p < q + unat ns + unat vl"
    "e = Entry p (take (unat sh) prev @ take (unat ns) (drop q buf)) (q + unat ns) (unat vl)
           (unat sh)"
    "block_entries buf limit (q + unat ns + unat vl) (ekey e) = Some es"
  using assms
  by (subst (asm) block_entries.simps) (auto split: if_splits option.splits prod.splits)

lemma block_entries_at_limit: "block_entries buf limit limit prev = Some []"
  by (subst block_entries.simps) simp

lemma block_entries_head:
  assumes "block_entries buf limit p prev = Some (e # es)"
  shows "eoffset e = p" "p < limit" "eoffset e < next_offset e" "next_offset e \<le> limit"
    "block_entries buf limit (next_offset e) (ekey e) = Some es"
  using assms by (auto elim!: block_entries_Cons simp: next_offset_def)

lemma advance_restart_index_ok:
  "restart_index_' it < num_restarts_' it \<Longrightarrow>
   \<exists>ri. advance_restart_index it = Inr (it\<lparr>restart_index_' := ri\<rparr>) \<and> ri < num_restarts_' it"
proof (induction it rule: advance_restart_index.induct)
  case (1 it)
  show ?case
  proof (cases "restart_index_' it + 1 < num_restarts_' it")
    case False
    then have "advance_restart_index it = Inr (it\<lparr>restart_index_' := restart_index_' it\<rparr>)"
      by simp
    with "1.prems" show ?thesis by blast
  next
    case True
    then have g: "GetRestartPoint it (restart_index_' it + 1)
        = Inr (DecodeFixed32 (data_' it)
                 (unat (restarts_' it) + unat (restart_index_' it + 1) * 4))"
      by (simp add: GetRestartPoint_def)
    let ?r = "DecodeFixed32 (data_' it) (unat (restarts_' it) + unat (restart_index_' it + 1) * 4)"
    show ?thesis
    proof (cases "?r < current_' it")
      case False
      with True g
      have "advance_restart_index it = Inr (it\<lparr>restart_index_' := restart_index_' it\<rparr>)"
        by simp
      with "1.prems" show ?thesis by blast
    next
      case r: True
      from "1.IH" [OF True g r] True
      obtain ri where
        "advance_restart_index (it\<lparr>restart_index_' := restart_index_' it + 1\<rparr>)
           = Inr (it\<lparr>restart_index_' := ri\<rparr>)" and "ri < num_restarts_' it"
        by auto
      with True g r show ?thesis by (subst advance_restart_index.simps) auto
    qed
  qed
qed

text \<open>One call of \<open>ParseNextKey\<close> where an entry starts, and at the end of the entries.\<close>

lemma ParseNextKey_entry:
  assumes ents: "block_entries (data_' it) (unat (restarts_' it)) p (key_' it) = Some (e # es)"
      and len: "unat (restarts_' it) \<le> length (data_' it)"
      and val: "value_' it = Slice (Some a) b" "a + b = p"
      and ri: "restart_index_' it < num_restarts_' it"
  shows "\<exists>ri. ParseNextKey it
            = Inr (True, it\<lparr>current_' := of_nat p, key_' := ekey e,
                             value_' := Slice (Some (evalue_offset e)) (evalue_length e),
                             restart_index_' := ri\<rparr>)
          \<and> ri < num_restarts_' it"
proof -
  let ?limit = "unat (restarts_' it)"
  from ents obtain q sh ns vl where
        p: "p < ?limit"
    and dec: "DecodeEntry (data_' it) p ?limit = Some (q, sh, ns, vl)"
    and sh: "unat sh \<le> length (key_' it)"
    and fit: "q + unat ns + unat vl \<le> ?limit"
    and e: "e = Entry p (take (unat sh) (key_' it) @ take (unat ns) (drop q (data_' it)))
                 (q + unat ns) (unat vl) (unat sh)"
    by (rule block_entries_Cons)
  have lim32: "?limit < 2 ^ 32" using unsigned_less [of "restarts_' it"] by simp
  have up: "unat (of_nat p :: u32) = p" using p lim32 by (simp add: unat_of_nat32)
  have neo: "NextEntryOffset it = Inr (of_nat p)"
    using val by (simp add: NextEntryOffset_def)
  let ?it1 = "it\<lparr>current_' := of_nat p,
                  key_' := take (unat sh) (key_' it) @ take (unat ns) (drop q (data_' it)),
                  value_' := Slice (Some (q + unat ns)) (unat vl)\<rparr>"
  have "restart_index_' ?it1 < num_restarts_' ?it1" using ri by simp
  from advance_restart_index_ok [OF this]
  obtain ri' where adv: "advance_restart_index ?it1 = Inr (?it1\<lparr>restart_index_' := ri'\<rparr>)"
    and ri': "ri' < num_restarts_' it" by auto
  have "ParseNextKey it = Inr (True, ?it1\<lparr>restart_index_' := ri'\<rparr>)"
    unfolding ParseNextKey_def neo
    using p dec sh fit len up adv by (simp add: Let_def)
  with ri' e show ?thesis by auto
qed

lemma ParseNextKey_end:
  assumes val: "value_' it = Slice (Some a) b" "a + b = unat (restarts_' it)"
  shows "ParseNextKey it
           = Inr (False, it\<lparr>current_' := restarts_' it, restart_index_' := num_restarts_' it\<rparr>)"
proof -
  have neo: "NextEntryOffset it = Inr (restarts_' it)"
    using val by (simp add: NextEntryOffset_def)
  show ?thesis unfolding ParseNextKey_def neo by (simp add: Let_def)
qed

lemma landed_trans: "landed it e it1 \<Longrightarrow> landed it1 e' it2 \<Longrightarrow> landed it e' it2"
  by (auto simp: landed_def)


lemma landed_fields:
  assumes "landed it e it'"
  shows "comparator_' it' = comparator_' it" "data_' it' = data_' it"
    "restarts_' it' = restarts_' it" "num_restarts_' it' = num_restarts_' it"
    "status_' it' = status_' it" "current_' it' = of_nat (eoffset e)" "key_' it' = ekey e"
    "value_' it' = Slice (Some (evalue_offset e)) (evalue_length e)"
    "restart_index_' it' < num_restarts_' it"
  using assms by (auto simp: landed_def)

lemma ran_off_fields:
  assumes "ran_off it it'"
  shows "comparator_' it' = comparator_' it" "data_' it' = data_' it"
    "restarts_' it' = restarts_' it" "num_restarts_' it' = num_restarts_' it"
    "status_' it' = status_' it" "current_' it' = restarts_' it"
    "restart_index_' it' = num_restarts_' it"
  using assms by (auto simp: ran_off_def)

lemma ParseNextKey_step:
  assumes "before it p prev"
      and "block_entries (data_' it) (unat (restarts_' it)) p prev = Some (e # es)"
  shows "\<exists>it'. ParseNextKey it = Inr (True, it') \<and> landed it e it'
           \<and> before it' (next_offset e) (ekey e)
           \<and> NextEntryOffset it' = Inr (of_nat (next_offset e))"
proof -
  from assms(1) obtain a b where v: "value_' it = Slice (Some a) b" "a + b = p"
    and k: "key_' it = prev" and ri: "restart_index_' it < num_restarts_' it"
    and len: "unat (restarts_' it) \<le> length (data_' it)"
    by (auto simp: before_def)
  from assms(2) k have "block_entries (data_' it) (unat (restarts_' it)) p (key_' it) = Some (e # es)"
    by simp
  from ParseNextKey_entry [OF this len v ri]
  obtain ri' where p: "ParseNextKey it
            = Inr (True, it\<lparr>current_' := of_nat p, key_' := ekey e,
                             value_' := Slice (Some (evalue_offset e)) (evalue_length e),
                             restart_index_' := ri'\<rparr>)"
     and ri': "ri' < num_restarts_' it" by auto
  from block_entries_head(1) [OF assms(2)] have off: "eoffset e = p" .
  show ?thesis
    using p ri' off len
    by (auto simp: landed_def before_def next_offset_def NextEntryOffset_def)
qed

lemma ParseNextKey_stop:
  assumes "before it p prev"
      and "block_entries (data_' it) (unat (restarts_' it)) p prev = Some []"
  shows "\<exists>it'. ParseNextKey it = Inr (False, it') \<and> ran_off it it'"
proof -
  from assms(1) obtain a b where v: "value_' it = Slice (Some a) b" "a + b = p"
    by (auto simp: before_def)
  from block_entries_Nil [OF assms(2)] have "p = unat (restarts_' it)" .
  with v ParseNextKey_end [of it a b] show ?thesis
    by (auto simp: ran_off_def intro!: exI [of _ "key_' it"] exI [of _ "value_' it"])
qed

lemma word32_less_of_nat:
  "x < 2 ^ 32 \<Longrightarrow> y < 2 ^ 32 \<Longrightarrow> ((of_nat x :: u32) < of_nat y) = (x < y)"
  by (simp add: word_less_nat_alt unat_of_nat32)

text \<open>Offsets increase along the entries.\<close>

lemma block_entries_offsets:
  "block_entries buf limit p prev = Some es \<Longrightarrow> k < length es \<Longrightarrow>
   p \<le> eoffset (es ! k) \<and> p < next_offset (es ! k) \<and> next_offset (es ! k) \<le> limit"
proof (induction es arbitrary: p prev k)
  case Nil
  then show ?case by simp
next
  case (Cons e es)
  note h = block_entries_head [OF Cons.prems(1)]
  show ?case
  proof (cases k)
    case 0
    with h show ?thesis by simp
  next
    case (Suc k')
    with Cons.prems have "k' < length es" by simp
    from Cons.IH [OF h(5) this] h Suc show ?thesis by simp
  qed
qed

lemma block_entries_last:
  "block_entries buf limit p prev = Some es \<Longrightarrow> es \<noteq> [] \<Longrightarrow> next_offset (last es) = limit"
proof (induction es arbitrary: p prev)
  case Nil
  then show ?case by simp
next
  case (Cons e es)
  note h = block_entries_head [OF Cons.prems(1)]
  show ?case
  proof (cases "es = []")
    case True
    with h(5) block_entries_Nil show ?thesis by auto
  next
    case False
    with Cons.IH [OF h(5)] show ?thesis by simp
  qed
qed

text \<open>The loop of \<open>SeekToLast\<close> stops on the last of the entries in front of it.\<close>

lemma SeekToLast_loop_entries:
  assumes "before it p prev"
      and "block_entries (data_' it) (unat (restarts_' it)) p prev = Some es"
      and "es \<noteq> []"
  shows "\<exists>it'. SeekToLast_loop it = Some (Inr it') \<and> landed it (last es) it'"
  using assms
proof (induction es arbitrary: it p prev)
  case Nil
  then show ?case by simp
next
  case (Cons e es)
  from ParseNextKey_step [OF Cons.prems(1,2)]
  obtain it1 where p1: "ParseNextKey it = Inr (True, it1)" and l1: "landed it e it1"
    and b1: "before it1 (next_offset e) (ekey e)"
    and n1: "NextEntryOffset it1 = Inr (of_nat (next_offset e))" by blast
  note h = block_entries_head [OF Cons.prems(2)]
  note f = landed_fields [OF l1]
  have lim32: "unat (restarts_' it) < 2 ^ 32" using unsigned_less [of "restarts_' it"] by simp
  have cmp: "((of_nat (next_offset e) :: u32) < restarts_' it1) = (next_offset e < unat (restarts_' it))"
    using h(4) lim32 f(3) by (simp add: word_less_nat_alt unat_of_nat32)
  show ?case
  proof (cases "es = []")
    case True
    with h(5) block_entries_Nil have "next_offset e = unat (restarts_' it)" by auto
    with cmp p1 n1 l1 True show ?thesis
      by (subst SeekToLast_loop.simps) simp
  next
    case False
    from h(5) have "0 < length es \<Longrightarrow> next_offset e \<le> eoffset (es ! 0)" 
      using block_entries_offsets [of "data_' it" "unat (restarts_' it)" "next_offset e" "ekey e" es 0]
      by simp
    from block_entries_offsets [OF h(5), of 0] False
    have "next_offset e < unat (restarts_' it)" by (cases es) (auto simp: less_le_trans)
    with cmp have c: "(of_nat (next_offset e) :: u32) < restarts_' it1" by simp
    from h(5) f have e1: "block_entries (data_' it1) (unat (restarts_' it1)) (next_offset e) (ekey e) = Some es"
      by simp
    from Cons.IH [OF b1 e1 False]
    obtain it' where "SeekToLast_loop it1 = Some (Inr it')" and "landed it1 (last es) it'" by blast
    with l1 p1 n1 c False show ?thesis
      by (subst SeekToLast_loop.simps) (auto intro: landed_trans)
  qed
qed

text \<open>
  The \<open>do ... while\<close> loop of \<open>Prev\<close> stops on the entry whose end is \<open>original\<close>.
\<close>

lemma Prev_scan_loop_entries:
  assumes "before it p prev"
      and "block_entries (data_' it) (unat (restarts_' it)) p prev = Some es"
      and "k < length es"
      and "original = of_nat (next_offset (es ! k))"
  shows "\<exists>it'. Prev_scan_loop it original = Some (Inr it') \<and> landed it (es ! k) it'"
  using assms
proof (induction k arbitrary: it p prev es)
  case 0
  then obtain e es' where es: "es = e # es'" by (cases es) auto
  from ParseNextKey_step [OF "0.prems"(1) "0.prems"(2) [unfolded es]]
  obtain it1 where p1: "ParseNextKey it = Inr (True, it1)" and l1: "landed it e it1"
    and n1: "NextEntryOffset it1 = Inr (of_nat (next_offset e))" by blast
  from "0.prems"(4) es have "original = of_nat (next_offset e)" by simp
  with p1 l1 n1 es show ?case
    by (subst Prev_scan_loop.simps) simp
next
  case (Suc k)
  then obtain e es' where es: "es = e # es'" by (cases es) auto
  from ParseNextKey_step [OF Suc.prems(1) Suc.prems(2) [unfolded es]]
  obtain it1 where p1: "ParseNextKey it = Inr (True, it1)" and l1: "landed it e it1"
    and b1: "before it1 (next_offset e) (ekey e)"
    and n1: "NextEntryOffset it1 = Inr (of_nat (next_offset e))" by blast
  note h = block_entries_head [OF Suc.prems(2) [unfolded es]]
  note f = landed_fields [OF l1]
  from Suc.prems(3) es have k: "k < length es'" by simp
  from Suc.prems(4) es have orig: "original = of_nat (next_offset (es' ! k))" by simp
  have lim32: "unat (restarts_' it) < 2 ^ 32" using unsigned_less [of "restarts_' it"] by simp
  from block_entries_offsets [OF h(5) k]
  have lt: "next_offset e < next_offset (es' ! k)" "next_offset (es' ! k) \<le> unat (restarts_' it)"
    by simp_all
  then have c: "(of_nat (next_offset e) :: u32) < original"
    unfolding orig using lim32 by (simp add: word32_less_of_nat)
  from h(5) f
  have e1: "block_entries (data_' it1) (unat (restarts_' it1)) (next_offset e) (ekey e) = Some es'"
    by simp
  from Suc.IH [OF b1 e1 k orig]
  obtain it' where "Prev_scan_loop it1 original = Some (Inr it')" and "landed it1 (es' ! k) it'"
    by blast
  with l1 p1 n1 c es show ?case
    by (subst Prev_scan_loop.simps) (auto intro: landed_trans)
qed


text \<open>The entries from the \<open>k\<close>-th on, read from its offset.\<close>

lemma block_entries_drop:
  "block_entries buf limit p prev = Some es \<Longrightarrow> k < length es \<Longrightarrow>
   block_entries buf limit (eoffset (es ! k)) (if k = 0 then prev else ekey (es ! (k - 1)))
     = Some (drop k es)"
proof (induction k arbitrary: es p prev)
  case 0
  then obtain e es' where es: "es = e # es'" by (cases es) auto
  from block_entries_head(1) [OF "0.prems"(1) [unfolded es]] "0.prems"(1) es
  show ?case by simp
next
  case (Suc k)
  then obtain e es' where es: "es = e # es'" by (cases es) auto
  note h = block_entries_head [OF Suc.prems(1) [unfolded es]]
  from Suc.prems(2) es have k: "k < length es'" by simp
  from Suc.IH [OF h(5) k] es
  show ?case by (cases k) simp_all
qed

lemma block_entries_no_shared:
  assumes "block_entries buf limit p prev = Some (e # es)" and "eshared e = 0"
  shows "block_entries buf limit p prev' = Some (e # es)"
proof -
  from assms(1) obtain q sh ns vl where
        p: "p < limit"
    and dec: "DecodeEntry buf p limit = Some (q, sh, ns, vl)"
    and fit: "q + unat ns + unat vl \<le> limit" "p < q + unat ns + unat vl"
    and e: "e = Entry p (take (unat sh) prev @ take (unat ns) (drop q buf)) (q + unat ns)
                  (unat vl) (unat sh)"
    and rest: "block_entries buf limit (q + unat ns + unat vl) (ekey e) = Some es"
    by (rule block_entries_Cons)
  from e assms(2) have sh0: "unat sh = 0" by simp
  with e have key: "ekey e = take (unat ns) (drop q buf)" by simp
  show ?thesis
    using p dec fit sh0 rest key e
    by (subst block_entries.simps) simp
qed

lemma block_entries_restart:
  assumes "block_entries buf limit 0 [] = Some es" and "k < length es"
      and "eshared (es ! k) = 0"
  shows "block_entries buf limit (eoffset (es ! k)) [] = Some (drop k es)"
proof -
  from block_entries_drop [OF assms(1,2)]
  have "block_entries buf limit (eoffset (es ! k)) (if k = 0 then [] else ekey (es ! (k - 1)))
     = Some (es ! k # drop (Suc k) es)"
    using assms(2) by (simp add: Cons_nth_drop_Suc)
  from block_entries_no_shared [OF this assms(3)] assms(2)
  show ?thesis by (simp add: Cons_nth_drop_Suc)
qed

lemma well_formed_blockD:
  assumes "well_formed_block buf es"
  shows "4 \<le> length buf" "length buf < 2 ^ 32" "0 < bcount buf"
    "blimit buf + 4 * bcount buf + 4 = length buf"
    "block_entries buf (blimit buf) 0 [] = Some es"
    "hd (restart_points buf (blimit buf) (bcount buf)) = 0"
    "sorted_wrt (<) (restart_points buf (blimit buf) (bcount buf))"
    "list_all (\<lambda>r. list_ex (\<lambda>e. eoffset e = r \<and> eshared e = 0) es)
       (tl (restart_points buf (blimit buf) (bcount buf)))"
  using assms
  by (auto simp: well_formed_block_def Let_def bcount_def blimit_def)

lemma restart_points_nth:
  "j < n \<Longrightarrow> restart_points buf (blimit buf) n ! j = rpoint buf j"
  by (simp add: restart_points_def rpoint_def)

lemma length_restart_points [simp]: "length (restart_points buf limit n) = n"
  by (simp add: restart_points_def)

lemma rpoint_0:
  assumes "well_formed_block buf es" shows "rpoint buf 0 = 0"
proof -
  note wf = well_formed_blockD [OF assms]
  from wf(3) have "restart_points buf (blimit buf) (bcount buf) \<noteq> []"
    by (simp add: restart_points_def)
  then have "hd (restart_points buf (blimit buf) (bcount buf))
      = restart_points buf (blimit buf) (bcount buf) ! 0"
    by (simp add: hd_conv_nth)
  with wf(6) wf(3) show ?thesis by (simp add: restart_points_nth)
qed


lemma rpoint_entry:
  assumes "well_formed_block buf es" and "0 < j" and "j < bcount buf"
  obtains k where "k < length es" "eoffset (es ! k) = rpoint buf j" "eshared (es ! k) = 0"
proof -
  note wf = well_formed_blockD [OF assms(1)]
  let ?rps = "restart_points buf (blimit buf) (bcount buf)"
  from assms(2,3) have "tl ?rps ! (j - 1) = ?rps ! j"
    by (simp add: nth_tl)
  moreover from assms(2,3) have "j - 1 < length (tl ?rps)" by simp
  ultimately have "?rps ! j \<in> set (tl ?rps)" by (metis nth_mem)
  with wf(8) have "list_ex (\<lambda>e. eoffset e = ?rps ! j \<and> eshared e = 0) es"
    by (simp add: list_all_iff)
  then obtain e where "e \<in> set es" "eoffset e = ?rps ! j" "eshared e = 0"
    by (auto simp: list_ex_iff)
  then obtain k where "k < length es" "es ! k = e" by (auto simp: in_set_conv_nth)
  with \<open>eoffset e = ?rps ! j\<close> \<open>eshared e = 0\<close> assms(3) that show thesis
    by (simp add: restart_points_nth)
qed

text \<open>The entries that follow a restart point, read with an empty previous key.\<close>

lemma restart_entries:
  assumes "well_formed_block buf es" and "j < bcount buf"
  obtains k where "k \<le> length es"
    "block_entries buf (blimit buf) (rpoint buf j) [] = Some (drop k es)"
    "k < length es \<Longrightarrow> eoffset (es ! k) = rpoint buf j"
    "0 < j \<Longrightarrow> k < length es \<and> eshared (es ! k) = 0"
proof (cases j)
  case 0
  note wf = well_formed_blockD [OF assms(1)]
  have "0 < length es \<Longrightarrow> eoffset (es ! 0) = 0"
    using wf(5) by (cases es) (auto dest: block_entries_head(1))
  with 0 wf(5) rpoint_0 [OF assms(1)] that [of 0] show thesis by simp
next
  case (Suc j')
  note wf = well_formed_blockD [OF assms(1)]
  from Suc assms(2) rpoint_entry [OF assms(1), of j]
  obtain k where k: "k < length es" "eoffset (es ! k) = rpoint buf j" "eshared (es ! k) = 0"
    by auto
  from block_entries_restart [OF wf(5) k(1) k(3)] k that [of k] show thesis by simp
qed

lemma iterator_overD:
  assumes "well_formed_block buf es" and "iterator_over cmp buf it"
  shows "comparator_' it = cmp" "data_' it = buf" "status_' it = OK"
    "unat (restarts_' it) = blimit buf" "unat (num_restarts_' it) = bcount buf"
    "restarts_' it = of_nat (blimit buf)"
    "unat (restarts_' it) \<le> length (data_' it)"
proof -
  note wf = well_formed_blockD [OF assms(1)]
  from assms(2) show c: "comparator_' it = cmp" "data_' it = buf" "status_' it = OK"
    by (simp_all add: iterator_over_def)
  from assms(2) show n: "unat (num_restarts_' it) = bcount buf"
    by (simp add: iterator_over_def block_iter_def new_Iter_def bcount_def Let_def)
  from assms(2) show r: "restarts_' it = of_nat (blimit buf)"
    by (simp add: iterator_over_def block_iter_def new_Iter_def bcount_def blimit_def Let_def)
  from wf(2) wf(4) have "blimit buf < 2 ^ 32" by simp
  with r show u: "unat (restarts_' it) = blimit buf" by (simp add: unat_of_nat32)
  from u wf(4) c(2) show "unat (restarts_' it) \<le> length (data_' it)" by simp
qed

lemma GetRestartPoint_rpoint:
  assumes "well_formed_block buf es" and "iterator_over cmp buf it"
      and "idx < num_restarts_' it"
  shows "GetRestartPoint it idx = Inr (of_nat (rpoint buf (unat idx)))"
    "unat (of_nat (rpoint buf (unat idx)) :: u32) = rpoint buf (unat idx)"
proof -
  note io = iterator_overD [OF assms(1,2)]
  show "GetRestartPoint it idx = Inr (of_nat (rpoint buf (unat idx)))"
    using assms(3) io(2,4) by (simp add: GetRestartPoint_def rpoint_def)
  show "unat (of_nat (rpoint buf (unat idx)) :: u32) = rpoint buf (unat idx)"
    by (simp add: rpoint_def)
qed

lemma SeekToRestartPoint_before:
  assumes "well_formed_block buf es" and "iterator_over cmp buf it"
      and "idx < num_restarts_' it"
  shows "\<exists>it1. SeekToRestartPoint it idx = Inr it1 \<and> iterator_over cmp buf it1
           \<and> before it1 (rpoint buf (unat idx)) []"
proof -
  note io = iterator_overD [OF assms(1,2)]
  let ?it0 = "it\<lparr>key_' := [], restart_index_' := idx\<rparr>"
  have io0: "iterator_over cmp buf ?it0" using assms(2) by (simp add: iterator_over_def)
  have "idx < num_restarts_' ?it0" using assms(3) by simp
  note g = GetRestartPoint_rpoint [OF assms(1) io0 this]
  show ?thesis
    unfolding SeekToRestartPoint_def g(1)
    using assms(2,3) g(2) io(7)
    by (simp add: iterator_over_def before_def)
qed

lemma block_entries_after:
  "block_entries buf limit p prev = Some es \<Longrightarrow> i < length es \<Longrightarrow>
   block_entries buf limit (next_offset (es ! i)) (ekey (es ! i)) = Some (drop (Suc i) es)"
proof (induction i arbitrary: es p prev)
  case 0
  then obtain e es' where es: "es = e # es'" by (cases es) auto
  from block_entries_head(5) [OF "0.prems"(1) [unfolded es]] es show ?case by simp
next
  case (Suc i)
  then obtain e es' where es: "es = e # es'" by (cases es) auto
  note h = block_entries_head [OF Suc.prems(1) [unfolded es]]
  from Suc.prems(2) es have "i < length es'" by simp
  from Suc.IH [OF h(5) this] es show ?case by simp
qed

lemma next_offset_is_offset:
  assumes "block_entries buf limit p prev = Some es" and "Suc i < length es"
  shows "next_offset (es ! i) = eoffset (es ! Suc i)"
proof -
  from assms(2) have i: "i < length es" by simp
  from block_entries_after [OF assms(1) i] assms(2)
  have "block_entries buf limit (next_offset (es ! i)) (ekey (es ! i))
      = Some (es ! Suc i # drop (Suc (Suc i)) es)"
    by (simp add: Cons_nth_drop_Suc)
  from block_entries_head(1) [OF this] show ?thesis by simp
qed

lemma offset_less_next:
  assumes "block_entries buf limit p prev = Some es" and "i < length es"
  shows "eoffset (es ! i) < next_offset (es ! i)"
proof -
  from block_entries_drop [OF assms] assms(2)
  have "block_entries buf limit (eoffset (es ! i)) (if i = 0 then prev else ekey (es ! (i - 1)))
      = Some (es ! i # drop (Suc i) es)"
    by (simp add: Cons_nth_drop_Suc)
  from block_entries_head(3) [OF this] show ?thesis .
qed

lemma offset_strict_mono:
  assumes "block_entries buf limit p prev = Some es" and "j < length es" and "i < j"
  shows "eoffset (es ! i) < eoffset (es ! j)"
  using assms(3,2)
proof (induction j)
  case 0
  then show ?case by simp
next
  case (Suc j)
  from Suc.prems have ij: "i \<le> j" and j: "j < length es" by simp_all
  have step: "eoffset (es ! j) < eoffset (es ! Suc j)"
    using offset_less_next [OF assms(1) j] next_offset_is_offset [OF assms(1) Suc.prems(2)]
    by simp
  show ?case
  proof (cases "i = j")
    case True
    with step show ?thesis by simp
  next
    case False
    with ij have "i < j" by simp
    from Suc.IH [OF this j] step show ?thesis by simp
  qed
qed

lemma offset_less_imp_index_less:
  assumes "block_entries buf limit p prev = Some es" and "i < length es" and "j < length es"
      and "eoffset (es ! i) < eoffset (es ! j)"
  shows "i < j"
proof (rule ccontr)
  assume "\<not> i < j"
  then have "j = i \<or> j < i" by auto
  then show False
  proof
    assume "j = i" with assms(4) show False by simp
  next
    assume "j < i"
    from offset_strict_mono [OF assms(1,2) this] assms(4) show False by simp
  qed
qed

lemma entry_offset_bound:
  assumes "well_formed_block buf es" and "i < length es"
  shows "eoffset (es ! i) < blimit buf" "blimit buf < 2 ^ 32"
    "next_offset (es ! i) \<le> blimit buf"
proof -
  note wf = well_formed_blockD [OF assms(1)]
  from block_entries_offsets [OF wf(5) assms(2)] offset_less_next [OF wf(5) assms(2)]
  show "eoffset (es ! i) < blimit buf" "next_offset (es ! i) \<le> blimit buf" by simp_all
  from wf(2,4) show "blimit buf < 2 ^ 32" by simp
qed

lemma positioned_at_entry:
  assumes "well_formed_block buf es" and "i < length es" and "positioned cmp buf it (es ! i)"
  shows "at_entry it (es ! i)" "Valid it"
proof -
  from assms(3) have io: "iterator_over cmp buf it" by (simp add: positioned_def)
  note d = iterator_overD [OF assms(1) io]
  note b = entry_offset_bound [OF assms(1,2)]
  have u: "unat (current_' it) = eoffset (es ! i)"
    using assms(3) b by (simp add: positioned_def unat_of_nat32)
  then show v: "Valid it" using b d(4) by (simp add: Valid_def word_less_nat_alt)
  with u assms(3) d(3) show "at_entry it (es ! i)"
    by (simp add: at_entry_def positioned_def status_def key_def value_def)
qed

lemma finished_invalid:
  assumes "finished cmp buf it"
  shows "\<not> Valid it" "status it = OK" "Next it = Inl AssertionFailure"
    "key it = Inl AssertionFailure" "value it = Inl AssertionFailure"
  using assms
  by (simp_all add: finished_def Valid_def status_def iterator_over_def Next_def key_def
        value_def)

lemma landed_positioned:
  "iterator_over cmp buf it \<Longrightarrow> landed it e it' \<Longrightarrow> positioned cmp buf it' e"
  by (auto simp: landed_def positioned_def iterator_over_def)

lemma ran_off_finished:
  "iterator_over cmp buf it \<Longrightarrow> ran_off it it' \<Longrightarrow> finished cmp buf it'"
  by (auto simp: ran_off_def finished_def iterator_over_def)

lemma positioned_before:
  assumes "well_formed_block buf es" and "positioned cmp buf it e"
  shows "before it (next_offset e) (ekey e)"
proof -
  from assms(2) have io: "iterator_over cmp buf it" by (simp add: positioned_def)
  note d = iterator_overD [OF assms(1) io]
  show ?thesis using assms(2) d(7)
    by (simp add: positioned_def before_def next_offset_def)
qed

text \<open>\<open>SeekToFirst\<close>, \<open>Next\<close> and \<open>SeekToLast\<close> on a well-formed block.\<close>

lemma SeekToFirst_wf:
  assumes wf: "well_formed_block buf es" and io: "iterator_over cmp buf it"
  shows "\<exists>it'. SeekToFirst it = Inr it'
           \<and> (if es = [] then finished cmp buf it' else positioned cmp buf it' (es ! 0))"
proof -
  note w = well_formed_blockD [OF wf]
  note d = iterator_overD [OF wf io]
  have "0 < num_restarts_' it" using w(3) d(5) by (simp add: word_less_nat_alt)
  from SeekToRestartPoint_before [OF wf io this]
  obtain it1 where s: "SeekToRestartPoint it 0 = Inr it1" and io1: "iterator_over cmp buf it1"
    and b: "before it1 0 []" by (auto simp: rpoint_0 [OF wf])
  note d1 = iterator_overD [OF wf io1]
  have ents: "block_entries (data_' it1) (unat (restarts_' it1)) 0 [] = Some es"
    using w(5) d1 by simp
  show ?thesis
  proof (cases es)
    case Nil
    from ParseNextKey_stop [OF b ents [unfolded Nil]]
    obtain it' where "ParseNextKey it1 = Inr (False, it')" "ran_off it1 it'" by blast
    with s Nil ran_off_finished [OF io1] show ?thesis by (simp add: SeekToFirst_def)
  next
    case (Cons e es')
    from ParseNextKey_step [OF b ents [unfolded Cons]]
    obtain it' where "ParseNextKey it1 = Inr (True, it')" "landed it1 e it'" by blast
    with s Cons landed_positioned [OF io1] show ?thesis by (simp add: SeekToFirst_def)
  qed
qed

lemma Next_wf:
  assumes wf: "well_formed_block buf es" and i: "i < length es"
      and pos: "positioned cmp buf it (es ! i)"
  shows "\<exists>it'. Next it = Inr it'
           \<and> (if Suc i < length es then positioned cmp buf it' (es ! Suc i)
               else finished cmp buf it')"
proof -
  note w = well_formed_blockD [OF wf]
  from pos have io: "iterator_over cmp buf it" by (simp add: positioned_def)
  note d = iterator_overD [OF wf io]
  note v = positioned_at_entry(2) [OF wf i pos]
  note b = positioned_before [OF wf pos]
  from block_entries_after [OF w(5) i] d
  have ents: "block_entries (data_' it) (unat (restarts_' it)) (next_offset (es ! i))
      (ekey (es ! i)) = Some (drop (Suc i) es)" by simp
  show ?thesis
  proof (cases "Suc i < length es")
    case True
    then have "drop (Suc i) es = es ! Suc i # drop (Suc (Suc i)) es"
      by (simp add: Cons_nth_drop_Suc)
    from ParseNextKey_step [OF b ents [unfolded this]]
    obtain it' where "ParseNextKey it = Inr (True, it')" "landed it (es ! Suc i) it'" by blast
    with v True landed_positioned [OF io] show ?thesis by (simp add: Next_def)
  next
    case False
    then have "drop (Suc i) es = []" by simp
    from ParseNextKey_stop [OF b ents [unfolded this]]
    obtain it' where "ParseNextKey it = Inr (False, it')" "ran_off it it'" by blast
    with v False ran_off_finished [OF io] show ?thesis by (simp add: Next_def)
  qed
qed

lemma unat_minus_one32: "0 < unat (w :: u32) \<Longrightarrow> unat (w - 1) = unat w - 1"
  by (rule unat_minus_one) auto

lemma SeekToLast_wf:
  assumes wf: "well_formed_block buf es" and io: "iterator_over cmp buf it"
  shows "\<exists>it'. SeekToLast it = Some (Inr it')
           \<and> (if es = [] then finished cmp buf it' else positioned cmp buf it' (last es))"
proof -
  note w = well_formed_blockD [OF wf]
  note d = iterator_overD [OF wf io]
  let ?idx = "num_restarts_' it - 1"
  have u: "unat ?idx = bcount buf - 1" using w(3) d(5) by (simp add: unat_minus_one32)
  then have lt: "?idx < num_restarts_' it" using w(3) d(5) by (simp add: word_less_nat_alt)
  from SeekToRestartPoint_before [OF wf io lt]
  obtain it1 where s: "SeekToRestartPoint it ?idx = Inr it1" and io1: "iterator_over cmp buf it1"
    and b: "before it1 (rpoint buf (bcount buf - 1)) []" by (auto simp: u)
  note d1 = iterator_overD [OF wf io1]
  have last_restart: "bcount buf - 1 < bcount buf" using w(3) by simp
  obtain k where k: "k \<le> length es"
    "block_entries buf (blimit buf) (rpoint buf (bcount buf - 1)) [] = Some (drop k es)"
    "k < length es \<Longrightarrow> eoffset (es ! k) = rpoint buf (bcount buf - 1)"
    "0 < bcount buf - 1 \<Longrightarrow> k < length es \<and> eshared (es ! k) = 0"
    by (rule restart_entries [OF wf last_restart], rule that) blast+
  have ents: "block_entries (data_' it1) (unat (restarts_' it1)) (rpoint buf (bcount buf - 1)) []
      = Some (drop k es)" using k(2) d1 by simp
  show ?thesis
  proof (cases "drop k es = []")
    case True
    have "es = []"
    proof (cases "0 < bcount buf - 1")
      case True
      with k(4) \<open>drop k es = []\<close> show ?thesis by simp
    next
      case False
      then have "bcount buf - 1 = 0" by simp
      with k(2) rpoint_0 [OF wf]
      have "block_entries buf (blimit buf) 0 [] = Some (drop k es)" by simp
      with w(5) have "drop k es = es" by (metis option.inject)
      with True show ?thesis by simp
    qed
    from ParseNextKey_stop [OF b ents [unfolded True]]
    obtain it' where "ParseNextKey it1 = Inr (False, it')" "ran_off it1 it'" by blast
    with s \<open>es = []\<close> ran_off_finished [OF io1] show ?thesis
      by (subst SeekToLast_def, simp, subst SeekToLast_loop.simps, simp)
  next
    case False
    from SeekToLast_loop_entries [OF b ents False]
    obtain it' where "SeekToLast_loop it1 = Some (Inr it')" "landed it1 (last (drop k es)) it'"
      by blast
    moreover from False have "es \<noteq> []" "last (drop k es) = last es" by auto
    ultimately show ?thesis using s landed_positioned [OF io1]
      by (simp add: SeekToLast_def)
  qed
qed

lemma restart_entries_nonempty:
  assumes "well_formed_block buf es" and "j < bcount buf" and "es \<noteq> []"
  obtains k where "k < length es"
    "block_entries buf (blimit buf) (rpoint buf j) [] = Some (drop k es)"
    "eoffset (es ! k) = rpoint buf j"
proof (cases j)
  case 0
  note wf = well_formed_blockD [OF assms(1)]
  from assms(3) have "eoffset (es ! 0) = 0"
    using wf(5) by (cases es) (auto dest: block_entries_head(1))
  with 0 wf(5) rpoint_0 [OF assms(1)] assms(3) that [of 0] show thesis by simp
next
  case (Suc j')
  note wf = well_formed_blockD [OF assms(1)]
  from Suc assms(2) rpoint_entry [OF assms(1), of j]
  obtain k where k: "k < length es" "eoffset (es ! k) = rpoint buf j" "eshared (es ! k) = 0"
    by auto
  from block_entries_restart [OF wf(5) k(1) k(3)] k that [of k] show thesis by simp
qed

text \<open>The first loop of \<open>Prev\<close>.\<close>

lemma Prev_restart_loop_wf:
  assumes wf: "well_formed_block buf es" and io: "iterator_over cmp buf it"
      and ri: "restart_index_' it < num_restarts_' it"
      and x: "x < 2 ^ 32"
  shows "(x = 0 \<longrightarrow>
            Prev_restart_loop it (of_nat x)
              = Inr (Return (it\<lparr>current_' := restarts_' it,
                                   restart_index_' := num_restarts_' it\<rparr>)))
         \<and> (0 < x \<longrightarrow>
               (\<exists>j. Prev_restart_loop it (of_nat x) = Inr (Fallthrough (it\<lparr>restart_index_' := j\<rparr>))
                  \<and> j < num_restarts_' it \<and> rpoint buf (unat j) < x))"
  using io ri
proof (induction n \<equiv> "unat (restart_index_' it)" arbitrary: it rule: less_induct)
  case less
  let ?ri = "restart_index_' it"
  note g = GetRestartPoint_rpoint [OF wf less.prems(1) less.prems(2)]
  have cmp: "((of_nat x :: u32) \<le> of_nat (rpoint buf (unat ?ri))) = (x \<le> rpoint buf (unat ?ri))"
    using x g(2) by (simp add: word_le_nat_alt unat_of_nat32)
  show ?case
  proof (cases "x \<le> rpoint buf (unat ?ri)")
    case False
    then have x0: "0 < x" by simp
    from False cmp g(1)
    have "Prev_restart_loop it (of_nat x) = Inr (Fallthrough it)"
      by (subst Prev_restart_loop.simps) simp
    moreover have "it = it\<lparr>restart_index_' := ?ri\<rparr>" by simp
    ultimately show ?thesis using x0 False less.prems(2)
      by (auto intro!: exI [of _ ?ri] simp del: Prev_restart_loop.simps)
  next
    case True
    show ?thesis
    proof (cases "?ri = 0")
      case z: True
      with True rpoint_0 [OF wf] have x0: "x = 0" by simp
      from True cmp g(1) z
      have "Prev_restart_loop it (of_nat x)
          = Inr (Return (it\<lparr>current_' := restarts_' it, restart_index_' := num_restarts_' it\<rparr>))"
        by (subst Prev_restart_loop.simps) simp
      with x0 show ?thesis by (simp del: Prev_restart_loop.simps)
    next
      case nz: False
      let ?it1 = "it\<lparr>restart_index_' := ?ri - 1\<rparr>"
      from nz have u: "unat (?ri - 1) = unat ?ri - 1" and pos: "0 < unat ?ri"
        by (simp_all add: unat_minus_one unat_gt_0)
      then have dec: "unat (restart_index_' ?it1) < unat ?ri" by simp
      have io1: "iterator_over cmp buf ?it1" using less.prems(1) by (simp add: iterator_over_def)
      have ri1: "restart_index_' ?it1 < num_restarts_' ?it1"
        using less.prems(2) u pos by (simp add: word_less_nat_alt)
      note ih = less.hyps [OF dec io1 ri1]
      from True cmp g(1) nz
      have unfold: "Prev_restart_loop it (of_nat x) = Prev_restart_loop ?it1 (of_nat x)"
        by (subst Prev_restart_loop.simps) simp
      show ?thesis
      proof (cases "x = 0")
        case True
        with ih unfold show ?thesis by (simp del: Prev_restart_loop.simps)
      next
        case False
        with ih obtain j where
          "Prev_restart_loop ?it1 (of_nat x) = Inr (Fallthrough (?it1\<lparr>restart_index_' := j\<rparr>))"
          "j < num_restarts_' it" "rpoint buf (unat j) < x"
          by (auto simp del: Prev_restart_loop.simps)
        with unfold False show ?thesis
          by (auto intro!: exI [of _ j] simp del: Prev_restart_loop.simps)
      qed
    qed
  qed
qed

lemma Prev_wf:
  assumes wf: "well_formed_block buf es" and i: "i < length es"
      and pos: "positioned cmp buf it (es ! i)"
  shows "\<exists>it'. Prev it = Some (Inr it')
           \<and> (if i = 0 then finished cmp buf it' else positioned cmp buf it' (es ! (i - 1)))"
proof -
  note w = well_formed_blockD [OF wf]
  from pos have io: "iterator_over cmp buf it"
    and cur: "current_' it = of_nat (eoffset (es ! i))"
    and ri: "restart_index_' it < num_restarts_' it"
    by (simp_all add: positioned_def)
  note d = iterator_overD [OF wf io]
  note v = positioned_at_entry(2) [OF wf i pos]
  note b = entry_offset_bound [OF wf i]
  from b have x32: "eoffset (es ! i) < 2 ^ 32" by simp
  note loop = Prev_restart_loop_wf [OF wf io ri x32]
  from i have ne: "es \<noteq> []" by auto
  have first: "eoffset (es ! 0) = 0"
    using w(5) ne by (cases es) (auto dest: block_entries_head(1))
  show ?thesis
  proof (cases i)
    case 0
    with first loop
    have "Prev_restart_loop it (current_' it)
        = Inr (Return (it\<lparr>current_' := restarts_' it, restart_index_' := num_restarts_' it\<rparr>))"
      by (simp add: cur del: Prev_restart_loop.simps)
    moreover have "finished cmp buf (it\<lparr>current_' := restarts_' it,
        restart_index_' := num_restarts_' it\<rparr>)"
      using io by (simp add: finished_def iterator_over_def)
    ultimately show ?thesis using v 0
      by (simp add: Prev_def Let_def del: Prev_restart_loop.simps)
  next
    case (Suc i')
    then have "0 < i" by simp
    from offset_strict_mono [OF w(5) i this] have x0: "0 < eoffset (es ! i)" by simp
    with loop obtain j where
          l: "Prev_restart_loop it (current_' it) = Inr (Fallthrough (it\<lparr>restart_index_' := j\<rparr>))"
      and j: "j < num_restarts_' it" and rp: "rpoint buf (unat j) < eoffset (es ! i)"
      by (auto simp: cur simp del: Prev_restart_loop.simps)
    let ?it1 = "it\<lparr>restart_index_' := j\<rparr>"
    have io1: "iterator_over cmp buf ?it1" using io by (simp add: iterator_over_def)
    have j1: "j < num_restarts_' ?it1" using j by simp
    from SeekToRestartPoint_before [OF wf io1 j1]
    obtain it2 where s: "SeekToRestartPoint ?it1 j = Inr it2" and io2: "iterator_over cmp buf it2"
      and b2: "before it2 (rpoint buf (unat j)) []" by blast
    note d2 = iterator_overD [OF wf io2]
    have jn: "unat j < bcount buf" using j d(5) by (simp add: word_less_nat_alt)
    obtain k where k: "k < length es"
      "block_entries buf (blimit buf) (rpoint buf (unat j)) [] = Some (drop k es)"
      "eoffset (es ! k) = rpoint buf (unat j)"
      by (rule restart_entries_nonempty [OF wf jn ne], rule that) blast+
    from k(3) rp have "eoffset (es ! k) < eoffset (es ! i)" by simp
    from offset_less_imp_index_less [OF w(5) k(1) i this] have ki: "k < i" .
    have ents: "block_entries (data_' it2) (unat (restarts_' it2)) (rpoint buf (unat j)) []
        = Some (drop k es)" using k(2) d2 by simp
    have idx: "i' - k < length (drop k es)" "drop k es ! (i' - k) = es ! i'"
      using ki i Suc by simp_all
    have "next_offset (es ! i') = eoffset (es ! i)"
      using next_offset_is_offset [OF w(5), of i'] i Suc by simp
    then have orig: "current_' it = of_nat (next_offset (drop k es ! (i' - k)))"
      using cur idx(2) by simp
    from Prev_scan_loop_entries [OF b2 ents idx(1) orig] idx(2)
    obtain it' where "Prev_scan_loop it2 (current_' it) = Some (Inr it')"
      and "landed it2 (es ! i') it'" by auto
    with landed_positioned [OF io2] l s v Suc show ?thesis
      by (simp add: Prev_def Let_def del: Prev_restart_loop.simps)
  qed
qed

lemma Next_times_wf:
  assumes wf: "well_formed_block buf es"
  shows "i < length es \<Longrightarrow> positioned cmp buf it (es ! i) \<Longrightarrow> i + m \<le> length es \<Longrightarrow>
         \<exists>it'. Next_times m it = Inr it'
           \<and> (if i + m < length es then positioned cmp buf it' (es ! (i + m))
               else finished cmp buf it')"
proof (induction m arbitrary: i it)
  case 0
  then show ?case by simp
next
  case (Suc m)
  from Next_wf [OF wf Suc.prems(1,2)]
  obtain it1 where n: "Next it = Inr it1"
    and p: "if Suc i < length es then positioned cmp buf it1 (es ! Suc i)
            else finished cmp buf it1" by blast
  show ?case
  proof (cases "Suc i < length es")
    case True
    with p have "positioned cmp buf it1 (es ! Suc i)" by simp
    from Suc.IH [OF True this] Suc.prems(3) n show ?thesis by (auto split: if_splits)
  next
    case False
    with Suc.prems have "m = 0" by simp
    with False p n Suc.prems show ?thesis by simp
  qed
qed

lemma Prev_times_wf:
  assumes wf: "well_formed_block buf es"
  shows "i < length es \<Longrightarrow> positioned cmp buf it (es ! i) \<Longrightarrow> m \<le> Suc i \<Longrightarrow>
         \<exists>it'. Prev_times m it = Some (Inr it')
           \<and> (if m \<le> i then positioned cmp buf it' (es ! (i - m))
               else finished cmp buf it')"
proof (induction m arbitrary: i it)
  case 0
  then show ?case by simp
next
  case (Suc m)
  from Prev_wf [OF wf Suc.prems(1,2)]
  obtain it1 where n: "Prev it = Some (Inr it1)"
    and p: "if i = 0 then finished cmp buf it1 else positioned cmp buf it1 (es ! (i - 1))"
    by blast
  show ?case
  proof (cases i)
    case 0
    with Suc.prems have "m = 0" by simp
    with 0 p n show ?thesis by simp
  next
    case (Suc i')
    with p have p1: "positioned cmp buf it1 (es ! i')" by simp
    from Suc Suc.prems have "i' < length es" "m \<le> Suc i'" by simp_all
    from Suc.IH [OF this(1) p1 this(2)] n Suc show ?thesis by (auto split: if_splits)
  qed
qed

lemma NewIterator_block_iter:
  assumes "well_formed_block buf es"
  shows "NewIterator (new_Block buf heap_allocated) cmp = BlockIter (block_iter cmp buf)"
    "iterator_over cmp buf (block_iter cmp buf)"
proof -
  note w = well_formed_blockD [OF assms]
  let ?n = "DecodeFixed32 buf (length buf - 4)"
  from w(3,4) have le: "unat ?n \<le> (length buf - 4) div 4" by (simp add: bcount_def)
  with w(2) have "unat ?n < 2 ^ 30" by simp
  then have one: "unat (1 + ?n) = 1 + unat ?n" by (simp add: unat_word_ariths)
  from w(3) have nz: "?n \<noteq> 0" by (auto simp: bcount_def)
  show "NewIterator (new_Block buf heap_allocated) cmp = BlockIter (block_iter cmp buf)"
    using w(1) le nz one
    by (simp add: NewIterator_def new_Block_def NumRestarts_def Let_def block_iter_def)
  show "iterator_over cmp buf (block_iter cmp buf)"
    by (simp add: iterator_over_def block_iter_def new_Iter_def Let_def)
qed

lemma well_formed_offsets_sorted:
  assumes "well_formed_block buf es"
  shows "sorted_wrt (<) (map eoffset es)"
  using offset_strict_mono [OF well_formed_blockD(5) [OF assms]]
  by (simp add: sorted_wrt_iff_nth_less)

text \<open>
  C4, as the code has it. Let \<open>buf\<close> be a well-formed block with the entries \<open>es\<close>,
  which are in ascending offset order and carry the keys
  \<open>prev_key[0..shared] || suffix\<close>, and let \<open>N\<close> be their number. On the iterator that
  \<open>NewIterator\<close> returns, and on every other iterator over the block, \<open>SeekToFirst\<close>
  followed by \<open>i < N\<close> calls of \<open>Next\<close> stands on entry \<open>i\<close>, and after \<open>N\<close> calls of
  \<open>Next\<close> the iterator is invalid with status OK; \<open>SeekToLast\<close> followed by \<open>i < N\<close> calls
  of \<open>Prev\<close> stands on entry \<open>N - 1 - i\<close>, and after \<open>N\<close> calls of \<open>Prev\<close>, when \<open>Prev\<close>
  has run off the beginning, the iterator is invalid with status OK. \<open>Next\<close> asserts
  \<open>Valid()\<close>: called in that invalid state it fails the assertion.
\<close>

theorem block_iteration:
  assumes wf: "well_formed_block buf es" and io: "iterator_over cmp buf it"
  shows "NewIterator (new_Block buf heap_allocated) cmp = BlockIter (block_iter cmp buf)
       \<and> iterator_over cmp buf (block_iter cmp buf)
       \<and> sorted_wrt (<) (map eoffset es)
       \<and> (\<forall>i < length es. \<exists>it'. first_then_next i it = Inr it' \<and> at_entry it' (es ! i))
       \<and> (\<exists>it'. first_then_next (length es) it = Inr it' \<and> \<not> Valid it' \<and> status it' = OK)
       \<and> (\<forall>i < length es. \<exists>it'. last_then_prev i it = Some (Inr it')
              \<and> at_entry it' (es ! (length es - 1 - i)))
       \<and> (\<exists>it'. last_then_prev (length es) it = Some (Inr it') \<and> \<not> Valid it'
              \<and> status it' = OK \<and> Next it' = Inl AssertionFailure)"
proof -
  from SeekToFirst_wf [OF wf io]
  obtain itf where f: "SeekToFirst it = Inr itf"
    and pf: "if es = [] then finished cmp buf itf else positioned cmp buf itf (es ! 0)" by blast
  from SeekToLast_wf [OF wf io]
  obtain itl where l: "SeekToLast it = Some (Inr itl)"
    and pl: "if es = [] then finished cmp buf itl else positioned cmp buf itl (last es)" by blast
  have fwd: "\<exists>it'. first_then_next i it = Inr it' \<and> at_entry it' (es ! i)" if i: "i < length es" for i
  proof -
    from i have "es \<noteq> []" by auto
    with i pf have p0: "positioned cmp buf itf (es ! 0)" and z: "0 < length es" by auto
    from Next_times_wf [OF wf z p0, of i] i
    obtain it' where "Next_times i itf = Inr it'" "positioned cmp buf it' (es ! i)" by auto
    with f positioned_at_entry(1) [OF wf i] show ?thesis by (simp add: first_then_next_def)
  qed
  have fwd_end: "\<exists>it'. first_then_next (length es) it = Inr it' \<and> \<not> Valid it' \<and> status it' = OK"
  proof (cases "es = []")
    case True
    with pf f finished_invalid [of cmp buf itf] show ?thesis by (simp add: first_then_next_def)
  next
    case False
    with pf have p0: "positioned cmp buf itf (es ! 0)" and z: "0 < length es" by auto
    from Next_times_wf [OF wf z p0, of "length es"]
    obtain it' where "Next_times (length es) itf = Inr it'" "finished cmp buf it'" by auto
    with f finished_invalid [of cmp buf it'] show ?thesis by (simp add: first_then_next_def)
  qed
  have bwd: "\<exists>it'. last_then_prev i it = Some (Inr it') \<and> at_entry it' (es ! (length es - 1 - i))"
    if i: "i < length es" for i
  proof -
    from i have ne: "es \<noteq> []" by auto
    with pl have p0: "positioned cmp buf itl (es ! (length es - 1))"
      by (simp add: last_conv_nth)
    from ne have z: "length es - 1 < length es" by simp
    from i have le: "i \<le> Suc (length es - 1)" "i \<le> length es - 1" by simp_all
    from Prev_times_wf [OF wf z p0 le(1)] le(2)
    obtain it' where "Prev_times i itl = Some (Inr it')"
      "positioned cmp buf it' (es ! (length es - 1 - i))" by (simp only: if_True) blast
    moreover from i have "length es - 1 - i < length es" by simp
    ultimately show ?thesis using l positioned_at_entry(1) [OF wf]
      by (simp add: last_then_prev_def)
  qed
  have bwd_end: "\<exists>it'. last_then_prev (length es) it = Some (Inr it') \<and> \<not> Valid it'
              \<and> status it' = OK \<and> Next it' = Inl AssertionFailure"
  proof (cases "es = []")
    case True
    with pl l finished_invalid [of cmp buf itl] show ?thesis by (simp add: last_then_prev_def)
  next
    case False
    with pl have p0: "positioned cmp buf itl (es ! (length es - 1))"
      by (simp add: last_conv_nth)
    from False have z: "length es - 1 < length es" by simp
    from False have "0 < length es" by simp
    then have le: "length es \<le> Suc (length es - 1)" "\<not> length es \<le> length es - 1"
      by linarith+
    from Prev_times_wf [OF wf z p0 le(1)] le(2)
    obtain it' where "Prev_times (length es) itl = Some (Inr it')" "finished cmp buf it'"
      by (simp only: if_False) blast
    with l finished_invalid [of cmp buf it'] show ?thesis by (simp add: last_then_prev_def)
  qed
  from NewIterator_block_iter [OF wf] well_formed_offsets_sorted [OF wf] fwd fwd_end bwd bwd_end
  show ?thesis by blast
qed

lemma three_entry_block_well_formed: "well_formed_block three_entry_block three_entries"
  unfolding well_formed_block_def
  by (simp add: three_entry_block_def three_entries_def DecodeFixed32_def Let_def
        restart_points_def upt_rec block_entries.simps DecodeEntry_def
        word_less_nat_alt word_le_nat_alt)

theorem block_iteration_witness:
  "well_formed_block three_entry_block three_entries
   \<and> iterator_over bytewise_compare three_entry_block
        (block_iter bytewise_compare three_entry_block)
   \<and> (\<exists>it'. first_then_next 2 (block_iter bytewise_compare three_entry_block) = Inr it'
          \<and> at_entry it' (Entry 16 [0x62] 20 2 0))
   \<and> (\<exists>it'. last_then_prev 2 (block_iter bytewise_compare three_entry_block) = Some (Inr it')
          \<and> at_entry it' (Entry 0 [0x61, 0x70, 0x70, 0x6c, 0x65] 8 2 0))"
proof -
  have h1: "well_formed_block three_entry_block three_entries"
    by (rule three_entry_block_well_formed)
  have h2: "iterator_over bytewise_compare three_entry_block
        (block_iter bytewise_compare three_entry_block)"
    by (simp add: iterator_over_def block_iter_def new_Iter_def Let_def)
  have l: "2 < length three_entries" by (simp add: three_entries_def)
  note t = block_iteration [OF h1 h2, of False]
  from t have "\<forall>i < length three_entries.
      \<exists>it'. first_then_next i (block_iter bytewise_compare three_entry_block) = Inr it'
        \<and> at_entry it' (three_entries ! i)" by blast
  with l have a: "\<exists>it'. first_then_next 2 (block_iter bytewise_compare three_entry_block) = Inr it'
        \<and> at_entry it' (three_entries ! 2)" by blast
  from t have "\<forall>i < length three_entries.
      \<exists>it'. last_then_prev i (block_iter bytewise_compare three_entry_block) = Some (Inr it')
        \<and> at_entry it' (three_entries ! (length three_entries - 1 - i))" by blast
  with l have b: "\<exists>it'. last_then_prev 2 (block_iter bytewise_compare three_entry_block)
        = Some (Inr it')
        \<and> at_entry it' (three_entries ! (length three_entries - 1 - 2))" by blast
  from a b h1 h2 show ?thesis
    by (simp add: three_entries_def)
qed

text \<open>
  C4 as stated fails in its last part. On \<open>three_entry_block\<close>, \<open>SeekToFirst\<close> stands on
  the first entry and \<open>Prev\<close> from there leaves the iterator invalid, with the key and
  the value of the first entry still in place. \<open>Next\<close> from that state fails its
  assertion; it does not leave an invalid iterator behind. With the assertion compiled
  out \<open>Next\<close> is \<open>ParseNextKey\<close>, which parses on from the end of the stale value
  and makes the iterator valid again, on the second entry.
\<close>

theorem Next_after_Prev_off_the_front_counterexample:
  "SeekToFirst (block_iter bytewise_compare three_entry_block) = Inr on_first_entry
   \<and> Prev on_first_entry = Some (Inr off_the_front)
   \<and> \<not> Valid off_the_front
   \<and> Next off_the_front = Inl AssertionFailure
   \<and> ParseNextKey off_the_front = Inr (True, back_on_second_entry)
   \<and> Valid back_on_second_entry"
  by (simp add: on_first_entry_def off_the_front_def back_on_second_entry_def
        block_iter_def three_entry_block_def block_eval_defs Prev_def)

section \<open>Seeking in a well-formed block\<close>









lemma finished_iff_invalid:
  assumes "well_formed_block buf es" and "finished cmp buf it"
  shows "\<not> Valid it" "status it = OK"
  using finished_invalid [OF assms(2)] by simp_all





end
